theory Spec2Isabelle
  imports Complex_Main "HOL-Library.Sublist"
begin

section \<open>Text\<close>

text \<open>
  Python strings are sequences of Unicode code points, so a string is a list of natural
  numbers here. \<open>asc\<close> turns an ASCII literal into such a list, and \<open>dec\<close> is the decimal
  rendering that \<^verbatim>\<open>f"{counter}"\<close> gives for a non-negative integer.
\<close>

type_synonym ustr = "nat list"

definition asc :: "string \<Rightarrow> ustr" where
  "asc s = map of_char s"

fun dec :: "nat \<Rightarrow> ustr" where
  "dec n = (if n < 10 then [48 + n] else dec (n div 10) @ [48 + n mod 10])"
declare dec.simps [simp del]

section \<open>DownloadManager: unique file names (main.py, get\_unique\_filename)\<close>

text \<open>
  \<^verbatim>\<open>os.path.join(save_path, name)\<close> for two components, as posixpath computes it.
  The file system is the predicate \<open>path_exists\<close> on paths (\<^verbatim>\<open>os.path.exists\<close>).
  The probing loop \<^verbatim>\<open>while True\<close> has no bound of its own, so it is a partial function:
  \<open>None\<close> stands for a loop that does not return.
\<close>

definition os_path_join :: "ustr \<Rightarrow> ustr \<Rightarrow> ustr" where
  "os_path_join a b =
     (if b \<noteq> [] \<and> hd b = 47 then b
      else if a = [] \<or> last a = 47 then a @ b
      else a @ [47] @ b)"

definition suffixed_name :: "ustr \<Rightarrow> nat \<Rightarrow> ustr" where
  "suffixed_name number counter = number @ asc ''-'' @ dec counter @ asc ''.png''"

partial_function (option) probe_counter :: "(ustr \<Rightarrow> bool) \<Rightarrow> ustr \<Rightarrow> ustr \<Rightarrow> nat \<Rightarrow> ustr option" where
  "probe_counter path_exists number save_path counter =
     (let new_filename = suffixed_name number counter;
          new_path = os_path_join save_path new_filename
      in if \<not> path_exists new_path then Some new_filename
         else probe_counter path_exists number save_path (counter + 1))"

definition get_unique_filename :: "(ustr \<Rightarrow> bool) \<Rightarrow> ustr \<Rightarrow> ustr \<Rightarrow> ustr option" where
  "get_unique_filename path_exists number save_path =
     (let base_filename = number @ asc ''.png'';
          base_path = os_path_join save_path base_filename
      in if \<not> path_exists base_path then Some base_filename
         else probe_counter path_exists number save_path 2)"

section \<open>JSON values and Python exceptions\<close>

text \<open>
  A decoded JSON document as Python holds it. \<open>JObj\<close> lists the items of a dict in order;
  \<open>JFloat\<close> carries the text that \<^verbatim>\<open>json.dumps\<close> renders for a float, which identifies it.
  An exception is its class and its message.
\<close>

datatype json =
    JNull
  | JBool bool
  | JInt int
  | JFloat ustr
  | JStr ustr
  | JArr "json list"
  | JObj "(ustr \<times> json) list"

datatype exn_class =
    ValueError | JSONDecodeError | ClientError | TimeoutError
  | AttributeError | IndexError | KeyError | TypeError | OverflowError
  | OSError | UnboundLocalError | CancelledError

datatype exn = Exn exn_class ustr

fun exn_class_of :: "exn \<Rightarrow> exn_class" where
  "exn_class_of (Exn c m) = c"

fun exn_str :: "exn \<Rightarrow> ustr" where
  "exn_str (Exn c m) = m"

text \<open>
  \<^verbatim>\<open>x.get(k, d)\<close>, \<^verbatim>\<open>x[0]\<close> and truthiness on decoded JSON: only a dict has \<open>get\<close>; indexing
  a dict with 0 is a \<open>KeyError\<close> because the keys of a decoded object are strings.
\<close>

fun py_get :: "json \<Rightarrow> ustr \<Rightarrow> json \<Rightarrow> exn + json" where
  "py_get (JObj kvs) k d = Inr (case map_of kvs k of Some v \<Rightarrow> v | None \<Rightarrow> d)"
| "py_get _ k d = Inl (Exn AttributeError (asc ''object has no attribute get''))"

fun py_first :: "json \<Rightarrow> exn + json" where
  "py_first (JArr []) = Inl (Exn IndexError (asc ''list index out of range''))"
| "py_first (JArr (x # xs)) = Inr x"
| "py_first (JStr []) = Inl (Exn IndexError (asc ''string index out of range''))"
| "py_first (JStr (c # cs)) = Inr (JStr [c])"
| "py_first (JObj kvs) = Inl (Exn KeyError (asc ''0''))"
| "py_first _ = Inl (Exn TypeError (asc ''object is not subscriptable''))"

fun truthy :: "json \<Rightarrow> bool" where
  "truthy JNull = False"
| "truthy (JBool b) = b"
| "truthy (JInt i) = (i \<noteq> 0)"
| "truthy (JFloat r) = (r \<noteq> asc ''0.0'' \<and> r \<noteq> asc ''-0.0'')"
| "truthy (JStr s) = (s \<noteq> [])"
| "truthy (JArr xs) = (xs \<noteq> [])"
| "truthy (JObj kvs) = (kvs \<noteq> [])"

section \<open>ApiClient: response parsing (services/api\_client.py)\<close>

text \<open>
  \<^verbatim>\<open>re.search\<close> tries every start position from the left. The two markdown patterns are
  an opening literal, a lazy \<^verbatim>\<open>(.*?)\<close> that cannot cross a newline, and a closing bracket.
  In the data URI pattern \<^verbatim>\<open>[^;]+\<close> must stop at the first semicolon, so the greedy match
  is the only candidate at each start.
\<close>

fun strip_prefix :: "ustr \<Rightarrow> ustr \<Rightarrow> ustr option" where
  "strip_prefix [] s = Some s"
| "strip_prefix (p # ps) [] = None"
| "strip_prefix (p # ps) (c # cs) = (if p = c then strip_prefix ps cs else None)"

fun re_search :: "(ustr \<Rightarrow> ustr option) \<Rightarrow> ustr \<Rightarrow> ustr option" where
  "re_search match_at [] = match_at []"
| "re_search match_at (c # cs) =
     (case match_at (c # cs) of Some g \<Rightarrow> Some g | None \<Rightarrow> re_search match_at cs)"

definition match_link_at :: "ustr \<Rightarrow> ustr \<Rightarrow> ustr option" where
  "match_link_at opening s =
     (case strip_prefix opening s of
        None \<Rightarrow> None
      | Some r \<Rightarrow>
          (let g = takeWhile (\<lambda>c. c \<noteq> 41 \<and> c \<noteq> 10) r;
               r' = dropWhile (\<lambda>c. c \<noteq> 41 \<and> c \<noteq> 10) r
           in if r' \<noteq> [] \<and> hd r' = 41 then Some g else None))"

definition click_download_opening :: ustr where
  "click_download_opening = [91, 28857, 20987, 19979, 36733, 93, 40]"

definition picture_opening :: ustr where
  "picture_opening = [33, 91, 22270, 29255, 93, 40]"

definition is_base64_char :: "nat \<Rightarrow> bool" where
  "is_base64_char c \<longleftrightarrow>
     (65 \<le> c \<and> c \<le> 90) \<or> (97 \<le> c \<and> c \<le> 122) \<or> (48 \<le> c \<and> c \<le> 57)
     \<or> c = 43 \<or> c = 47 \<or> c = 61"

definition match_data_uri_at :: "ustr \<Rightarrow> ustr option" where
  "match_data_uri_at s =
     (case strip_prefix (asc ''data:image/'') s of
        None \<Rightarrow> None
      | Some r \<Rightarrow>
          (let mime = takeWhile (\<lambda>c. c \<noteq> 59) r;
               r2 = dropWhile (\<lambda>c. c \<noteq> 59) r
           in if mime = [] then None
              else (case strip_prefix (asc '';base64,'') r2 of
                      None \<Rightarrow> None
                    | Some r3 \<Rightarrow>
                        (let payload = takeWhile is_base64_char r3
                         in if payload = [] then None
                            else Some (asc ''data:image/'' @ mime @ asc '';base64,'' @ payload)))))"

definition search_data_uri :: "ustr \<Rightarrow> ustr option" where
  "search_data_uri text = re_search match_data_uri_at text"

text \<open>\<^verbatim>\<open>json.dumps(data, ensure_ascii=False)\<close> with the default separators.\<close>

definition hex_digit :: "nat \<Rightarrow> nat" where
  "hex_digit d = (if d < 10 then 48 + d else 87 + d)"

definition escape_char :: "nat \<Rightarrow> ustr" where
  "escape_char c =
     (if c = 34 then [92, 34]
      else if c = 92 then [92, 92]
      else if c = 10 then [92, 110]
      else if c = 13 then [92, 114]
      else if c = 9 then [92, 116]
      else if c = 8 then [92, 98]
      else if c = 12 then [92, 102]
      else if c < 32 then [92, 117, 48, 48, hex_digit (c div 16), hex_digit (c mod 16)]
      else [c])"

definition dumps_str :: "ustr \<Rightarrow> ustr" where
  "dumps_str s = [34] @ concat (map escape_char s) @ [34]"

fun join_with :: "ustr \<Rightarrow> ustr list \<Rightarrow> ustr" where
  "join_with sep [] = []"
| "join_with sep [x] = x"
| "join_with sep (x # y # ys) = x @ sep @ join_with sep (y # ys)"

definition dumps_int :: "int \<Rightarrow> ustr" where
  "dumps_int i = (if i < 0 then [45] @ dec (nat (- i)) else dec (nat i))"

fun json_dumps :: "json \<Rightarrow> ustr" where
  "json_dumps JNull = asc ''null''"
| "json_dumps (JBool b) = (if b then asc ''true'' else asc ''false'')"
| "json_dumps (JInt i) = dumps_int i"
| "json_dumps (JFloat r) = r"
| "json_dumps (JStr s) = dumps_str s"
| "json_dumps (JArr xs) = [91] @ join_with (asc '', '') (map json_dumps xs) @ [93]"
| "json_dumps (JObj kvs) =
     [123] @ join_with (asc '', '') (map (\<lambda>(k, v). dumps_str k @ asc '': '' @ json_dumps v) kvs) @ [125]"

text \<open>
  The parser of one response: the content field, then the branch for a string, the branch
  for a list, and the scan of the serialized response for anything else.
\<close>

definition get_content :: "json \<Rightarrow> exn + json" where
  "get_content data =
     (case py_get data (asc ''choices'') (JArr [JObj []]) of
        Inl e \<Rightarrow> Inl e
      | Inr choices \<Rightarrow>
          (case py_first choices of
             Inl e \<Rightarrow> Inl e
           | Inr choice \<Rightarrow>
               (case py_get choice (asc ''message'') (JObj []) of
                  Inl e \<Rightarrow> Inl e
                | Inr message \<Rightarrow> py_get message (asc ''content'') JNull)))"

definition no_image_data :: exn where
  "no_image_data = Exn ValueError [21709, 24212, 20013, 27809, 26377, 25214, 21040, 22270, 29255, 25968, 25454]"

definition no_image_data_list :: exn where
  "no_image_data_list = Exn ValueError
     ([21709, 24212, 20013, 27809, 26377, 25214, 21040, 22270, 29255, 25968, 25454] @ asc ''(list)'')"

definition unparseable_format :: exn where
  "unparseable_format = Exn ValueError [21709, 24212, 26684, 24335, 26080, 27861, 35299, 26512]"

definition parse_str_content :: "ustr \<Rightarrow> ustr \<Rightarrow> exn + json" where
  "parse_str_content model_type content =
     (let m = (if model_type \<noteq> asc ''nano-banana''
               then (case re_search (match_link_at click_download_opening) content of
                       Some g \<Rightarrow> Some g
                     | None \<Rightarrow> re_search (match_link_at picture_opening) content)
               else None)
      in case m of
           Some g \<Rightarrow> Inr (JStr g)
         | None \<Rightarrow>
             (case search_data_uri content of
                Some m2 \<Rightarrow> Inr (JStr m2)
              | None \<Rightarrow> Inl no_image_data))"

fun is_dict :: "json \<Rightarrow> bool" where
  "is_dict (JObj kvs) = True"
| "is_dict _ = False"

fun parse_list_content :: "json list \<Rightarrow> exn + json" where
  "parse_list_content [] = Inl no_image_data_list"
| "parse_list_content (part # parts) =
     (if is_dict part \<and> py_get part (asc ''type'') JNull = Inr (JStr (asc ''image_url''))
      then (case py_get part (asc ''image_url'') (JObj []) of
              Inl e \<Rightarrow> Inl e
            | Inr iu \<Rightarrow>
                (case py_get iu (asc ''url'') JNull of
                   Inl e \<Rightarrow> Inl e
                 | Inr url \<Rightarrow> if truthy url then Inr url else parse_list_content parts))
      else parse_list_content parts)"

definition parse_fallback :: "json \<Rightarrow> exn + json" where
  "parse_fallback data =
     (let text = json_dumps data
      in case search_data_uri text of
           Some m3 \<Rightarrow> Inr (JStr m3)
         | None \<Rightarrow> Inl unparseable_format)"

definition parse_response :: "ustr \<Rightarrow> json \<Rightarrow> exn + json" where
  "parse_response model_type data =
     (case get_content data of
        Inl e \<Rightarrow> Inl e
      | Inr content \<Rightarrow>
          (case content of
             JStr s \<Rightarrow> parse_str_content model_type s
           | JArr parts \<Rightarrow> parse_list_content parts
           | _ \<Rightarrow> parse_fallback data))"

section \<open>ApiClient: the retry loop (services/api\_client.py, generate\_image\_async)\<close>

text \<open>
  The network is an oracle: \<open>net i\<close> is what the request of iteration \<open>i\<close> (counted from 0)
  meets, either an exception of the HTTP layer or a response with status, body text and
  decoded body. The trace records every sleep and every request. The delay is computed as
  \<^verbatim>\<open>0.5 * (2 ** (attempt - 1))\<close>: the power is an exact integer, and its conversion to a
  float raises \<open>OverflowError\<close> from \<open>2 ** 1024\<close> on.
\<close>

datatype net_result = Raises exn | Response nat ustr json

datatype event = Slept rat | Requested

definition request_once :: "ustr \<Rightarrow> net_result \<Rightarrow> exn + json" where
  "request_once model_type r =
     (case r of
        Raises e \<Rightarrow> Inl e
      | Response status text data \<Rightarrow>
          if status \<noteq> 200
          then Inl (Exn ValueError (asc ''HTTP '' @ dec status @ asc '': '' @ take 200 text))
          else parse_response model_type data)"

definition backoff_delay :: "nat \<Rightarrow> exn + rat" where
  "backoff_delay attempt =
     (if 1024 \<le> attempt - 1
      then Inl (Exn OverflowError (asc ''int too large to convert to float''))
      else Inr (min 8 (2 ^ (attempt - 1) / 2)))"

definition caught_for_retry :: "exn \<Rightarrow> bool" where
  "caught_for_retry e \<longleftrightarrow>
     exn_class_of e \<in> {ClientError, TimeoutError, ValueError, JSONDecodeError}"

function generate_loop ::
  "ustr \<Rightarrow> (nat \<Rightarrow> net_result) \<Rightarrow> int \<Rightarrow> nat \<Rightarrow> event list \<Rightarrow> (exn + json option) \<times> event list"
where
  "generate_loop model_type net retry_count attempt tr =
     (if int attempt \<le> retry_count then
        (case (if attempt > 0
               then (case backoff_delay attempt of
                       Inl e \<Rightarrow> (Inl e, tr)
                     | Inr delay \<Rightarrow> (request_once model_type (net attempt), tr @ [Slept delay, Requested]))
               else (request_once model_type (net attempt), tr @ [Requested])) of
           (Inr url, tr') \<Rightarrow> (Inr (Some url), tr')
         | (Inl e, tr') \<Rightarrow>
             if caught_for_retry e
             then (if int (attempt + 1) > retry_count then (Inl e, tr')
                   else generate_loop model_type net retry_count (attempt + 1) tr')
             else (Inl e, tr'))
      else (Inr None, tr))"
  by pat_completeness auto
termination
  by (relation "measure (\<lambda>(model_type, net, retry_count, attempt, tr). nat (retry_count + 1 - int attempt))") auto

declare generate_loop.simps [simp del]

definition generate_image_async ::
  "ustr \<Rightarrow> ustr \<Rightarrow> (nat \<Rightarrow> net_result) \<Rightarrow> int \<Rightarrow> (exn + json option) \<times> event list" where
  "generate_image_async api_key model_type net retry_count =
     (if api_key = [] then (Inl (Exn ValueError ([65, 80, 73, 23494, 38053, 19981, 33021, 20026, 31354])), [])
      else generate_loop model_type net retry_count 0 [])"

text \<open>
  The trace that the retry policy prescribes for \<open>n\<close> attempts, numbered from 1: nothing
  before the first, and \<open>min(8, 0.5 * 2^(i-2))\<close> seconds before attempt \<open>i\<close>.
\<close>

definition attempt_events :: "nat \<Rightarrow> event list" where
  "attempt_events i = (if i = 1 then [Requested] else [Slept (min 8 (2 ^ (i - 2) / 2)), Requested])"

definition expected_trace :: "nat \<Rightarrow> event list" where
  "expected_trace n = concat (map attempt_events [1..<Suc n])"

text \<open>
  Predicates for stating what the parser does: the type tests of the source, a part that
  the list branch takes for an image reference, and "the text contains a match of
  \<^verbatim>\<open>data:image/[^;]+;base64,[A-Za-z0-9+/=]+\<close>" said without an algorithm.
\<close>

fun is_str :: "json \<Rightarrow> bool" where
  "is_str (JStr s) = True"
| "is_str _ = False"

fun is_list :: "json \<Rightarrow> bool" where
  "is_list (JArr xs) = True"
| "is_list _ = False"

definition is_image_part :: "json \<Rightarrow> bool" where
  "is_image_part part \<longleftrightarrow>
     is_dict part \<and> py_get part (asc ''type'') JNull = Inr (JStr (asc ''image_url''))"

definition contains_data_uri :: "ustr \<Rightarrow> bool" where
  "contains_data_uri t \<longleftrightarrow>
     (\<exists>pre mime payload post.
        t = pre @ asc ''data:image/'' @ mime @ asc '';base64,'' @ payload @ post \<and>
        mime \<noteq> [] \<and> 59 \<notin> set mime \<and> payload \<noteq> [] \<and> list_all is_base64_char payload)"

definition outcome_of :: "exn + json \<Rightarrow> exn + json option" where
  "outcome_of r = (case r of Inl e \<Rightarrow> Inl e | Inr url \<Rightarrow> Inr (Some url))"

section \<open>ReferenceMatcher (main.py, extract\_image\_names)\<close>

text \<open>
  The candidate names are read from the links of every category, stripped, and the empty
  ones dropped; \<^verbatim>\<open>set(names)\<close> then removes duplicates. A Python set has no specified
  iteration order, so the matcher takes the items of that set as a list \<open>name_set\<close>, in
  whatever order the set yields them; \<open>set_listing\<close> says that a list is such a listing.
  \<^verbatim>\<open>sorted(..., key=len, reverse=True)\<close> is stable, like \<open>sort_key\<close>.
\<close>

definition is_space :: "nat \<Rightarrow> bool" where
  "is_space c \<longleftrightarrow>
     (9 \<le> c \<and> c \<le> 13) \<or> (28 \<le> c \<and> c \<le> 32) \<or> c = 133 \<or> c = 160 \<or> c = 5760
     \<or> (8192 \<le> c \<and> c \<le> 8202) \<or> c = 8232 \<or> c = 8233 \<or> c = 8239 \<or> c = 8287 \<or> c = 12288"

definition py_strip :: "ustr \<Rightarrow> ustr" where
  "py_strip s = rev (dropWhile is_space (rev (dropWhile is_space s)))"

definition collect_names :: "ustr option list list \<Rightarrow> ustr list" where
  "collect_names category_links =
     filter (\<lambda>name. name \<noteq> [])
       (map (\<lambda>link. py_strip (case link of None \<Rightarrow> [] | Some name \<Rightarrow> name))
          (concat category_links))"

definition set_listing :: "ustr list \<Rightarrow> ustr list \<Rightarrow> bool" where
  "set_listing names items \<longleftrightarrow> distinct items \<and> set items = set names"

text \<open>
  The text is normalized by three character replacements. The pattern of a name is the
  escaped name between a negative lookbehind and a negative lookahead for
  \<^verbatim>\<open>[A-Za-z0-9\<close>U+4E00\<^verbatim>\<open>-\<close>U+9FA5\<^verbatim>\<open>]\<close>; \<open>finditer\<close> yields its non-overlapping matches from left to
  right as spans. \<open>masked\<close> is the copy of the text in which accepted spans are overwritten
  with the character 0.
\<close>

definition str_replace_char :: "nat \<Rightarrow> nat \<Rightarrow> ustr \<Rightarrow> ustr" where
  "str_replace_char a b s = map (\<lambda>c. if c = a then b else c) s"

definition normalize_prompt :: "ustr \<Rightarrow> ustr" where
  "normalize_prompt prompt =
     str_replace_char 41 65289 (str_replace_char 40 65288 (str_replace_char 12288 32 prompt))"

definition is_word_char :: "nat \<Rightarrow> bool" where
  "is_word_char c \<longleftrightarrow>
     (65 \<le> c \<and> c \<le> 90) \<or> (97 \<le> c \<and> c \<le> 122) \<or> (48 \<le> c \<and> c \<le> 57)
     \<or> (19968 \<le> c \<and> c \<le> 40869)"

definition match_at :: "ustr \<Rightarrow> ustr \<Rightarrow> nat \<Rightarrow> bool" where
  "match_at n text pos \<longleftrightarrow>
     (pos = 0 \<or> \<not> is_word_char (text ! (pos - 1))) \<and>
     take (length n) (drop pos text) = n \<and>
     (pos + length n = length text \<or> \<not> is_word_char (text ! (pos + length n)))"

function finditer_from :: "ustr \<Rightarrow> ustr \<Rightarrow> nat \<Rightarrow> (nat \<times> nat) list" where
  "finditer_from n text pos =
     (if length text < pos then []
      else if match_at n text pos
           then (pos, pos + length n) # finditer_from n text (max (pos + 1) (pos + length n))
           else finditer_from n text (pos + 1))"
  by pat_completeness auto
termination
  by (relation "measure (\<lambda>(n, text, pos). length text + 1 - pos)") auto

declare finditer_from.simps [simp del]

definition finditer :: "ustr \<Rightarrow> ustr \<Rightarrow> (nat \<times> nat) list" where
  "finditer n text = finditer_from n text 0"

definition mask_span :: "nat \<Rightarrow> nat \<Rightarrow> ustr \<Rightarrow> ustr" where
  "mask_span s e masked = fold (\<lambda>i m. m[i := 0]) [s..<e] masked"

definition visit_match :: "ustr \<Rightarrow> nat \<times> nat \<Rightarrow> ustr list \<times> ustr \<Rightarrow> ustr list \<times> ustr" where
  "visit_match n occ st =
     (case occ of (s, e) \<Rightarrow>
        (case st of (matched, masked) \<Rightarrow>
           if 0 \<in> set (take (e - s) (drop s masked)) then (matched, masked)
           else (matched @ [n], mask_span s e masked)))"

definition scan_name :: "ustr \<Rightarrow> ustr \<Rightarrow> ustr list \<times> ustr \<Rightarrow> ustr list \<times> ustr" where
  "scan_name text n st = fold (visit_match n) (finditer n text) st"

fun dedupe_loop :: "ustr list \<Rightarrow> ustr set \<Rightarrow> ustr list \<Rightarrow> ustr list" where
  "dedupe_loop [] seen ordered = ordered"
| "dedupe_loop (n # ns) seen ordered =
     (if n \<notin> seen then dedupe_loop ns (insert n seen) (ordered @ [n])
      else dedupe_loop ns seen ordered)"

definition sort_longest_first :: "ustr list \<Rightarrow> ustr list" where
  "sort_longest_first names = sort_key (\<lambda>n. - int (length n)) names"

definition extract_image_names :: "ustr \<Rightarrow> ustr list \<Rightarrow> ustr list" where
  "extract_image_names prompt name_set =
     (let text = normalize_prompt prompt;
          names = sort_longest_first name_set;
          matched = fst (fold (scan_name text) names ([], text))
      in dedupe_loop matched {} [])"

text \<open>
  The same loops with a history variable: the accepted occurrences as triples of name,
  start and end, for stating which spans were consumed. \<open>fold_scan_name_spans\<close> below shows
  that their names are the list \<open>matched\<close> of the source.
\<close>

definition visit_span ::
  "ustr \<Rightarrow> nat \<times> nat \<Rightarrow> (ustr \<times> nat \<times> nat) list \<times> ustr \<Rightarrow> (ustr \<times> nat \<times> nat) list \<times> ustr" where
  "visit_span n occ st =
     (case occ of (s, e) \<Rightarrow>
        (case st of (acc, masked) \<Rightarrow>
           if 0 \<in> set (take (e - s) (drop s masked)) then (acc, masked)
           else (acc @ [(n, s, e)], mask_span s e masked)))"

definition scan_name_spans ::
  "ustr \<Rightarrow> ustr \<Rightarrow> (ustr \<times> nat \<times> nat) list \<times> ustr \<Rightarrow> (ustr \<times> nat \<times> nat) list \<times> ustr" where
  "scan_name_spans text n st = fold (visit_span n) (finditer n text) st"

definition accepted_spans :: "ustr \<Rightarrow> ustr list \<Rightarrow> (ustr \<times> nat \<times> nat) list" where
  "accepted_spans prompt name_set =
     (let text = normalize_prompt prompt;
          names = sort_longest_first name_set
      in fst (fold (scan_name_spans text) names ([], text)))"

fun spans_disjoint :: "ustr \<times> nat \<times> nat \<Rightarrow> ustr \<times> nat \<times> nat \<Rightarrow> bool" where
  "spans_disjoint (n1, s1, e1) (n2, s2, e2) \<longleftrightarrow> e1 \<le> s2 \<or> e2 \<le> s1"

definition is_occurrence :: "ustr \<Rightarrow> ustr \<times> nat \<times> nat \<Rightarrow> bool" where
  "is_occurrence text a \<longleftrightarrow>
     (case a of (n, s, e) \<Rightarrow> e = s + length n \<and> e \<le> length text \<and> match_at n text s)"

definition spans_inv :: "ustr \<Rightarrow> (ustr \<times> nat \<times> nat) list \<times> ustr \<Rightarrow> bool" where
  "spans_inv t st \<longleftrightarrow>
     (case st of (acc, masked) \<Rightarrow>
        length masked = length t \<and>
        (\<forall>a\<in>set acc. is_occurrence t a \<and> fst a \<noteq> [] \<and>
           (\<forall>i. fst (snd a) \<le> i \<and> i < snd (snd a) \<longrightarrow> masked ! i = 0)) \<and>
        sorted_wrt spans_disjoint acc)"

section \<open>The task table and its callbacks (main.py)\<close>

text \<open>
  A row of \<^verbatim>\<open>prompt_table_data\<close>. The status is the string the source stores; a row
  without the key counts as waiting (\<^verbatim>\<open>data.get('status', ...)\<close>). Every callback walks
  the table and updates the first row whose prompt equals the original prompt of the
  worker, then stops: \<open>update_first\<close>.
\<close>

record task =
  t_number :: ustr
  t_prompt :: ustr
  t_status :: "ustr option"
  t_image_url :: ustr
  t_error_msg :: ustr
  t_actual_filename :: "ustr option"

definition st_waiting :: ustr where "st_waiting = [31561, 24453, 20013]"
definition st_generating :: ustr where "st_generating = [29983, 25104, 20013]"
definition st_downloading :: ustr where "st_downloading = [19979, 36733, 20013]"
definition st_success :: ustr where "st_success = [25104, 21151]"
definition st_failed :: ustr where "st_failed = [22833, 36133]"
definition retry_word :: ustr where "retry_word = [37325, 35797]"

fun contains_str :: "ustr \<Rightarrow> ustr \<Rightarrow> bool" where
  "contains_str sub [] = (sub = [])"
| "contains_str sub (c # cs) = (strip_prefix sub (c # cs) \<noteq> None \<or> contains_str sub cs)"

definition status_or_waiting :: "task \<Rightarrow> ustr" where
  "status_or_waiting d = (case t_status d of None \<Rightarrow> st_waiting | Some s \<Rightarrow> s)"

fun update_first :: "(task \<Rightarrow> bool) \<Rightarrow> (task \<Rightarrow> task) \<Rightarrow> task list \<Rightarrow> task list" where
  "update_first c f [] = []"
| "update_first c f (d # ds) = (if c d then f d # ds else d # update_first c f ds)"

definition handle_progress_row :: "ustr \<Rightarrow> ustr \<Rightarrow> task list \<Rightarrow> task list" where
  "handle_progress_row status_text original_prompt table =
     update_first (\<lambda>d. t_prompt d = original_prompt)
       (\<lambda>d. if contains_str retry_word status_text then d\<lparr>t_status := Some status_text\<rparr>
            else d\<lparr>t_status := Some st_generating\<rparr>) table"

definition handle_success_row :: "ustr \<Rightarrow> ustr \<Rightarrow> task list \<Rightarrow> task list" where
  "handle_success_row url original_prompt table =
     update_first (\<lambda>d. t_prompt d = original_prompt)
       (\<lambda>d. d\<lparr>t_status := Some st_downloading, t_image_url := url, t_error_msg := []\<rparr>) table"

definition handle_error_row :: "ustr \<Rightarrow> ustr \<Rightarrow> task list \<Rightarrow> task list" where
  "handle_error_row err original_prompt table =
     update_first (\<lambda>d. t_prompt d = original_prompt)
       (\<lambda>d. d\<lparr>t_status := Some st_failed, t_image_url := [], t_error_msg := err\<rparr>) table"

definition mark_download_complete :: "ustr \<Rightarrow> ustr option \<Rightarrow> task list \<Rightarrow> task list" where
  "mark_download_complete original_prompt filename table =
     update_first (\<lambda>d. t_prompt d = original_prompt)
       (\<lambda>d. (case filename of
                 None \<Rightarrow> d\<lparr>t_status := Some st_success\<rparr>
               | Some f \<Rightarrow> if f \<noteq> [] then d\<lparr>t_status := Some st_success, t_actual_filename := Some f\<rparr>
                           else d\<lparr>t_status := Some st_success\<rparr>)) table"

definition download_failed_prefix :: ustr where
  "download_failed_prefix = [19979, 36733, 22833, 36133, 58, 32]"

definition mark_download_failed :: "ustr \<Rightarrow> ustr \<Rightarrow> task list \<Rightarrow> task list" where
  "mark_download_failed original_prompt err table =
     update_first (\<lambda>d. t_prompt d = original_prompt)
       (\<lambda>d. d\<lparr>t_status := Some st_failed, t_error_msg := download_failed_prefix @ err\<rparr>) table"

section \<open>DownloadManager: download\_image\_async (main.py)\<close>

text \<open>
  The environment of one download: what \<^verbatim>\<open>os.makedirs\<close>, the base64 decoder, the file
  write and the HTTP GET do, and which paths exist. The function yields the events of the
  run: requests, writes and the calls of \<open>mark_download_complete\<close> and
  \<open>mark_download_failed\<close> (a call passed to \<^verbatim>\<open>QTimer.singleShot\<close> is taken to run). The
  result is \<open>None\<close> when the file name probing does not return; its first component is an
  exception that leaves the function.

  In the branch for a status other than 200 the source refers to \<^verbatim>\<open>QTimer\<close>, which the
  \<^verbatim>\<open>import\<close> in the handler below makes a local name of the function: the reference
  raises \<open>UnboundLocalError\<close>, and the handler reports it like any other failure.
\<close>

datatype io_result = Done | Fails exn

record download_env =
  env_makedirs :: io_result
  env_b64decode :: io_result
  env_write :: io_result
  env_http :: "exn + nat"
  env_path_exists :: "ustr \<Rightarrow> bool"

datatype dl_event =
    HttpGet ustr
  | WriteFile ustr
  | MarkComplete ustr ustr
  | MarkFailed ustr ustr

definition is_Exception :: "exn \<Rightarrow> bool" where
  "is_Exception e \<longleftrightarrow> exn_class_of e \<noteq> CancelledError"

definition save_data_url :: "download_env \<Rightarrow> ustr \<Rightarrow> ustr \<Rightarrow> ustr \<Rightarrow> ustr \<Rightarrow> exn option \<times> dl_event list" where
  "save_data_url env image_url file_path filename original_prompt =
     (if 44 \<notin> set image_url
      then (Some (Exn ValueError (asc ''not enough values to unpack (expected 2, got 1)'')), [])
      else (case env_b64decode env of
              Fails e \<Rightarrow> (Some e, [])
            | Done \<Rightarrow>
                (case env_write env of
                   Fails e \<Rightarrow> (Some e, [WriteFile file_path])
                 | Done \<Rightarrow> (None, [WriteFile file_path, MarkComplete original_prompt filename]))))"

definition unbound_qtimer :: exn where
  "unbound_qtimer = Exn UnboundLocalError
     (asc ''cannot access local variable '' @ [39] @ asc ''QTimer'' @ [39] @
      asc '' where it is not associated with a value'')"

definition fetch_remote :: "download_env \<Rightarrow> ustr \<Rightarrow> ustr \<Rightarrow> ustr \<Rightarrow> ustr \<Rightarrow> exn option \<times> dl_event list" where
  "fetch_remote env image_url file_path filename original_prompt =
     (case env_http env of
        Inl e \<Rightarrow> (Some e, [HttpGet image_url])
      | Inr code \<Rightarrow>
          if code = 200
          then (case env_write env of
                  Fails e \<Rightarrow> (Some e, [HttpGet image_url, WriteFile file_path])
                | Done \<Rightarrow> (None, [HttpGet image_url, WriteFile file_path,
                                   MarkComplete original_prompt filename]))
          else (Some unbound_qtimer, [HttpGet image_url]))"

definition save_failed_prefix :: ustr where
  "save_failed_prefix = [20445, 23384, 22270, 29255, 22833, 36133, 58, 32]"

definition download_image_async ::
  "download_env \<Rightarrow> ustr \<Rightarrow> ustr \<Rightarrow> ustr \<Rightarrow> ustr \<Rightarrow> (exn option \<times> dl_event list) option" where
  "download_image_async env save_path image_url number original_prompt =
     (let attempt =
        (case env_makedirs env of
           Fails e \<Rightarrow> Some (Some e, [])
         | Done \<Rightarrow>
             (case get_unique_filename (env_path_exists env) number save_path of
                None \<Rightarrow> None
              | Some filename \<Rightarrow>
                  (let file_path = os_path_join save_path filename
                   in if strip_prefix (asc ''data:image/'') image_url \<noteq> None
                      then Some (save_data_url env image_url file_path filename original_prompt)
                      else Some (fetch_remote env image_url file_path filename original_prompt))))
      in case attempt of
           None \<Rightarrow> None
         | Some (None, evs) \<Rightarrow> Some (None, evs)
         | Some (Some e, evs) \<Rightarrow>
             if is_Exception e
             then Some (None, evs @ [MarkFailed original_prompt (save_failed_prefix @ exn_str e)])
             else Some (Some e, evs))"

text \<open>
  The reported calls applied to the table, and what counts as a failed download: the
  directory cannot be made, the data URL has no comma or does not decode, the GET raises or
  answers another status than 200, or the write fails.
\<close>

fun apply_callback :: "dl_event \<Rightarrow> task list \<Rightarrow> task list" where
  "apply_callback (MarkComplete p f) table = mark_download_complete p (Some f) table"
| "apply_callback (MarkFailed p err) table = mark_download_failed p err table"
| "apply_callback _ table = table"

definition download_fails :: "download_env \<Rightarrow> ustr \<Rightarrow> bool" where
  "download_fails env image_url \<longleftrightarrow>
     env_makedirs env \<noteq> Done \<or>
     (if strip_prefix (asc ''data:image/'') image_url \<noteq> None
      then 44 \<notin> set image_url \<or> env_b64decode env \<noteq> Done \<or> env_write env \<noteq> Done
      else (case env_http env of
              Inl e \<Rightarrow> True
            | Inr code \<Rightarrow> code \<noteq> 200 \<or> env_write env \<noteq> Done))"

fun io_catchable :: "io_result \<Rightarrow> bool" where
  "io_catchable Done = True"
| "io_catchable (Fails e) = is_Exception e"

definition env_catchable :: "download_env \<Rightarrow> bool" where
  "env_catchable env \<longleftrightarrow>
     io_catchable (env_makedirs env) \<and> io_catchable (env_b64decode env) \<and>
     io_catchable (env_write env) \<and>
     (case env_http env of Inl e \<Rightarrow> is_Exception e | Inr code \<Rightarrow> True)"

fun is_http_get :: "dl_event \<Rightarrow> bool" where
  "is_http_get (HttpGet u) = True"
| "is_http_get _ = False"

fun is_mark :: "dl_event \<Rightarrow> bool" where
  "is_mark (MarkComplete p f) = True"
| "is_mark (MarkFailed p e) = True"
| "is_mark _ = False"

section \<open>RequestScheduler: start\_generation (main.py)\<close>

text \<open>
  The application state that \<open>start_generation\<close> reads, and the workers it hands to
  \<open>run_async_worker\<close>. Dialogs, the progress display and \<^verbatim>\<open>save_config\<close> are left out;
  creating the asynchronous task is taken to succeed.
\<close>

record link =
  link_name :: "ustr option"
  link_url :: ustr
  link_path :: ustr

record style =
  style_text :: ustr
  style_usage_count :: int

record app_state =
  self_api_key :: ustr
  self_save_path :: ustr
  self_prompt_table_data :: "task list"
  self_custom_style_content :: ustr
  self_current_style :: ustr
  self_style_library :: "(ustr \<times> style) list"
  self_image_ratio :: ustr
  self_prompt_numbers :: "(ustr \<times> ustr) list"
  self_category_links :: "link list list"

record worker =
  w_prompt :: ustr
  w_image_data :: "link list"
  w_number :: ustr
  w_idx :: nat
  w_original_prompt :: ustr

definition get_image_data_map :: "app_state \<Rightarrow> ustr \<Rightarrow> link option" where
  "get_image_data_map app =
     fold (\<lambda>l m. case link_name l of
                    None \<Rightarrow> m
                  | Some name \<Rightarrow> if name \<noteq> [] then m(name \<mapsto> l) else m)
       (concat (self_category_links app)) Map.empty"

definition bump_usage :: "ustr \<Rightarrow> (ustr \<times> style) list \<Rightarrow> (ustr \<times> style) list" where
  "bump_usage name lib =
     map (\<lambda>(k, v). if k = name then (k, v\<lparr>style_usage_count := style_usage_count v + 1\<rparr>) else (k, v)) lib"

definition choose_style :: "app_state \<Rightarrow> ustr \<times> (ustr \<times> style) list" where
  "choose_style app =
     (let lib = self_style_library app; cur = self_current_style app
      in if py_strip (self_custom_style_content app) \<noteq> []
         then (py_strip (self_custom_style_content app),
               if cur \<noteq> [] \<and> map_of lib cur \<noteq> None then bump_usage cur lib else lib)
         else (case map_of lib cur of
                 Some st \<Rightarrow> if cur \<noteq> [] then (py_strip (style_text st), bump_usage cur lib) else ([], lib)
               | None \<Rightarrow> ([], lib)))"

definition ratio_tag :: "ustr \<Rightarrow> ustr" where
  "ratio_tag ratio = [22270, 29255, 27604, 20363, 12304] @ ratio @ [12305]"

definition process_prompt :: "ustr \<Rightarrow> ustr \<Rightarrow> ustr \<Rightarrow> ustr" where
  "process_prompt ratio style_content p =
     (if \<not> contains_str (ratio_tag ratio) p
      then (let p1 = (if style_content \<noteq> [] \<and> \<not> contains_str style_content p
                      then p @ [32] @ style_content else p)
            in p1 @ [32] @ ratio_tag ratio)
      else p)"

definition make_worker :: "app_state \<Rightarrow> ustr list \<Rightarrow> nat \<times> ustr \<times> ustr \<Rightarrow> worker" where
  "make_worker app name_set job =
     (case job of (i, p, original_prompt) \<Rightarrow>
        \<lparr>w_prompt = p,
         w_image_data = List.map_filter (get_image_data_map app) (extract_image_names p name_set),
         w_number = (case map_of (self_prompt_numbers app) original_prompt of
                       Some n \<Rightarrow> n | None \<Rightarrow> dec (i + 1)),
         w_idx = i,
         w_original_prompt = original_prompt\<rparr>)"

definition start_generation :: "app_state \<Rightarrow> ustr list \<Rightarrow> app_state \<times> worker list" where
  "start_generation app name_set =
     (if self_api_key app = [] then (app, [])
      else if self_save_path app = [] then (app, [])
      else if self_prompt_table_data app = [] then (app, [])
      else
        (let prompts = map t_prompt
               (filter (\<lambda>d. status_or_waiting d = st_waiting) (self_prompt_table_data app))
         in if prompts = [] then (app, [])
            else
              (let (style_content, lib) = choose_style app;
                   processed = map (process_prompt (self_image_ratio app) style_content) prompts
               in (app\<lparr>self_style_library := lib\<rparr>,
                   map (make_worker app name_set) (zip [0..<length processed] (zip processed prompts))))))"

text \<open>A table with one row in each state, for the examples.\<close>

definition example_table :: "task list" where
  "example_table =
     [\<lparr>t_number = asc ''1'', t_prompt = asc ''a cat'', t_status = Some st_success,
       t_image_url = asc ''http://h/1.png'', t_error_msg = [], t_actual_filename = Some (asc ''1.png'')\<rparr>,
      \<lparr>t_number = asc ''2'', t_prompt = asc ''a dog'', t_status = Some st_waiting,
       t_image_url = [], t_error_msg = [], t_actual_filename = None\<rparr>,
      \<lparr>t_number = asc ''3'', t_prompt = asc ''a fox'', t_status = Some st_failed,
       t_image_url = [], t_error_msg = asc ''HTTP 500'', t_actual_filename = None\<rparr>,
      \<lparr>t_number = asc ''4'', t_prompt = asc ''an owl'', t_status = Some st_generating,
       t_image_url = [], t_error_msg = [], t_actual_filename = None\<rparr>,
      \<lparr>t_number = asc ''5'', t_prompt = asc ''a bee'', t_status = Some st_downloading,
       t_image_url = asc ''http://h/5.png'', t_error_msg = [], t_actual_filename = None\<rparr>]"

definition example_app :: app_state where
  "example_app =
     \<lparr>self_api_key = asc ''key'', self_save_path = asc ''out'',
      self_prompt_table_data = example_table,
      self_custom_style_content = [], self_current_style = [], self_style_library = [],
      self_image_ratio = asc ''3:2'', self_prompt_numbers = [(asc ''a dog'', asc ''2'')],
      self_category_links = []\<rparr>"

section \<open>RequestScheduler: workers under the semaphore (main.py)\<close>

text \<open>
  \<open>_run_with_semaphore\<close> runs \<open>worker.run()\<close> inside \<^verbatim>\<open>async with self.semaphore\<close>. A worker
  is queued when its task is created, acquires a permit, emits the progress signal, emits
  either the finished or the error signal, and releases the permit when \<open>run\<close> returns.
  \<open>handle_success\<close> starts the download with \<^verbatim>\<open>asyncio.create_task\<close> and returns, so a
  download is a task of its own that ends with one of the two download callbacks. An
  event names the worker or the download by its position. The scheduler state is the
  application state, the workers with their original prompt and phase, the value of the
  semaphore and the downloads with a flag for "still running". Edits of the table by the
  user are not events of this machine.
\<close>

datatype phase = Queued | Acquired | Running | Finishing | Finished

record sched =
  s_app :: app_state
  s_workers :: "(ustr \<times> phase) list"
  s_permits :: nat
  s_downloads :: "(ustr \<times> bool) list"

datatype sched_event =
    Submit "ustr list"
  | Acquire nat
  | EmitProgress nat
  | EmitFinished nat ustr
  | EmitError nat ustr
  | Release nat
  | DownloadOk nat ustr
  | DownloadFail nat ustr

definition init_sched :: "app_state \<Rightarrow> nat \<Rightarrow> sched" where
  "init_sched app max_concurrent_tasks =
     \<lparr>s_app = app, s_workers = [], s_permits = max_concurrent_tasks, s_downloads = []\<rparr>"

definition with_table :: "(task list \<Rightarrow> task list) \<Rightarrow> sched \<Rightarrow> sched" where
  "with_table f s = s\<lparr>s_app := (s_app s)\<lparr>self_prompt_table_data := f (self_prompt_table_data (s_app s))\<rparr>\<rparr>"

definition set_phase :: "nat \<Rightarrow> phase \<Rightarrow> sched \<Rightarrow> sched" where
  "set_phase i ph s = s\<lparr>s_workers := (s_workers s)[i := (fst (s_workers s ! i), ph)]\<rparr>"

definition in_phase :: "sched \<Rightarrow> nat \<Rightarrow> phase \<Rightarrow> bool" where
  "in_phase s i ph \<longleftrightarrow> i < length (s_workers s) \<and> snd (s_workers s ! i) = ph"

definition generating_text :: ustr where
  "generating_text = st_generating @ asc ''...''"

text \<open>
  \<open>AsyncWorker.run\<close>: the signals of one worker, given the outcome of the generation call.
  A failure of the generation is reported under the prefix "request failed", a
  cancellation as "task cancelled".
\<close>

datatype signal =
    ProgressSignal ustr ustr
  | FinishedSignal ustr "json option" ustr
  | ErrorSignal ustr ustr

definition request_failed_prefix :: ustr where
  "request_failed_prefix = [35831, 27714, 22833, 36133, 58, 32]"

definition task_cancelled_text :: ustr where
  "task_cancelled_text = [20219, 21153, 24050, 21462, 28040]"

definition worker_run :: "ustr \<Rightarrow> ustr option \<Rightarrow> exn + json option \<Rightarrow> signal list" where
  "worker_run p num outcome =
     ProgressSignal p generating_text #
     (case outcome of
        Inr url \<Rightarrow> [FinishedSignal p url (case num of None \<Rightarrow> [] | Some n \<Rightarrow> n)]
      | Inl e \<Rightarrow>
          if exn_class_of e = CancelledError then [ErrorSignal p task_cancelled_text]
          else [ErrorSignal p (request_failed_prefix @ exn_str e)])"

fun sched_step :: "sched \<Rightarrow> sched_event \<Rightarrow> sched option" where
  "sched_step s (Submit name_set) =
     (case start_generation (s_app s) name_set of
        (app', ws) \<Rightarrow>
          Some (s\<lparr>s_app := app',
                  s_workers := s_workers s @ map (\<lambda>w. (w_original_prompt w, Queued)) ws\<rparr>))"
| "sched_step s (Acquire i) =
     (if in_phase s i Queued \<and> 0 < s_permits s
      then Some (set_phase i Acquired (s\<lparr>s_permits := s_permits s - 1\<rparr>))
      else None)"
| "sched_step s (EmitProgress i) =
     (if in_phase s i Acquired
      then Some (set_phase i Running
                  (with_table (handle_progress_row generating_text (fst (s_workers s ! i))) s))
      else None)"
| "sched_step s (EmitFinished i url) =
     (if in_phase s i Running
      then (let p = fst (s_workers s ! i);
                s1 = with_table (handle_success_row url p) s;
                s2 = (if self_save_path (s_app s) \<noteq> []
                      then s1\<lparr>s_downloads := s_downloads s1 @ [(p, True)]\<rparr>
                      else with_table (mark_download_complete p None) s1)
            in Some (set_phase i Finishing s2))
      else None)"
| "sched_step s (EmitError i err) =
     (if in_phase s i Running
      then Some (set_phase i Finishing (with_table (handle_error_row err (fst (s_workers s ! i))) s))
      else None)"
| "sched_step s (Release i) =
     (if in_phase s i Finishing
      then Some (set_phase i Finished (s\<lparr>s_permits := s_permits s + 1\<rparr>))
      else None)"
| "sched_step s (DownloadOk j filename) =
     (if j < length (s_downloads s) \<and> snd (s_downloads s ! j)
      then Some ((with_table (mark_download_complete (fst (s_downloads s ! j)) (Some filename)) s)
                   \<lparr>s_downloads := (s_downloads s)[j := (fst (s_downloads s ! j), False)]\<rparr>)
      else None)"
| "sched_step s (DownloadFail j err) =
     (if j < length (s_downloads s) \<and> snd (s_downloads s ! j)
      then Some ((with_table (mark_download_failed (fst (s_downloads s ! j)) err) s)
                   \<lparr>s_downloads := (s_downloads s)[j := (fst (s_downloads s ! j), False)]\<rparr>)
      else None)"

fun sched_run :: "sched \<Rightarrow> sched_event list \<Rightarrow> sched option" where
  "sched_run s [] = Some s"
| "sched_run s (ev # evs) = (case sched_step s ev of None \<Rightarrow> None | Some s' \<Rightarrow> sched_run s' evs)"

text \<open>
  The states that the concurrency bound is about, as \<open>update_generation_progress\<close> reads
  them from the status text: generating or retrying, and those together with downloading.
\<close>

definition is_generating :: "task \<Rightarrow> bool" where
  "is_generating d \<longleftrightarrow>
     status_or_waiting d = st_generating \<or> contains_str retry_word (status_or_waiting d)"

definition is_occupying :: "task \<Rightarrow> bool" where
  "is_occupying d \<longleftrightarrow> is_generating d \<or> status_or_waiting d = st_downloading"

fun holds_permit :: "phase \<Rightarrow> bool" where
  "holds_permit Acquired = True"
| "holds_permit Running = True"
| "holds_permit Finishing = True"
| "holds_permit _ = False"

definition generating_count :: "sched \<Rightarrow> nat" where
  "generating_count s = length (filter is_generating (self_prompt_table_data (s_app s)))"

definition occupying_count :: "sched \<Rightarrow> nat" where
  "occupying_count s = length (filter is_occupying (self_prompt_table_data (s_app s)))"

text \<open>A batch of two waiting rows, for the examples.\<close>

definition two_waiting :: app_state where
  "two_waiting =
     \<lparr>self_api_key = asc ''key'', self_save_path = asc ''out'',
      self_prompt_table_data =
        [\<lparr>t_number = asc ''1'', t_prompt = asc ''a cat'', t_status = Some st_waiting,
          t_image_url = [], t_error_msg = [], t_actual_filename = None\<rparr>,
         \<lparr>t_number = asc ''2'', t_prompt = asc ''a dog'', t_status = Some st_waiting,
          t_image_url = [], t_error_msg = [], t_actual_filename = None\<rparr>],
      self_custom_style_content = [], self_current_style = [], self_style_library = [],
      self_image_ratio = asc ''3:2'', self_prompt_numbers = [],
      self_category_links = []\<rparr>"

text \<open>
  The invariant of the scheduler. The permits handed out are held by the workers between
  acquire and release; a generating row is the first row of its prompt; and every
  generating row has a worker with that prompt between its progress signal and its final
  signal.
\<close>

fun first_only :: "ustr set \<Rightarrow> task list \<Rightarrow> bool" where
  "first_only seen [] = True"
| "first_only seen (d # ds) =
     ((is_generating d \<longrightarrow> t_prompt d \<notin> seen) \<and> first_only (insert (t_prompt d) seen) ds)"

definition running_prompt :: "(ustr \<times> phase) list \<Rightarrow> ustr \<Rightarrow> bool" where
  "running_prompt ws q \<longleftrightarrow> (\<exists>j<length ws. ws ! j = (q, Running))"

definition sched_inv :: "nat \<Rightarrow> sched \<Rightarrow> bool" where
  "sched_inv K s \<longleftrightarrow>
     s_permits s + length (filter (\<lambda>w. holds_permit (snd w)) (s_workers s)) = K \<and>
     first_only {} (self_prompt_table_data (s_app s)) \<and>
     (\<forall>d\<in>set (self_prompt_table_data (s_app s)).
        is_generating d \<longrightarrow> running_prompt (s_workers s) (t_prompt d))"

definition permit_holders :: "(ustr \<times> phase) list \<Rightarrow> nat" where
  "permit_holders ws = length (filter (\<lambda>w. holds_permit (snd w)) ws)"

section \<open>HistoryStore (services/history.py, save\_history\_record)\<close>

text \<open>
  The store is the history directory: whether it exists, whether creating it fails, its
  files in the order in which \<^verbatim>\<open>glob\<close> lists them, and the paths that cannot be opened for
  writing. A file is unreadable, not UTF-8, not JSON, or a JSON document. Writing and
  reading a document back is the identity on JSON values. Prompt data and config data are
  Python values of the shapes JSON has. The two readings of the clock are parameters, and
  so is the digest: \<open>digest c\<close> stands for the MD5 hex digest of
  \<^verbatim>\<open>json.dumps(c, sort_keys=True, ensure_ascii=False).encode("utf-8")\<close>, or for the
  exception of that encoding. Paths are joined as \<open>os_path_join\<close> does.
\<close>

datatype fcontent = Unreadable | NotUtf8 | NotJson | Doc json

record hfs =
  hf_dir_exists :: bool
  hf_mkdir_fails :: bool
  hf_files :: "(ustr \<times> fcontent) list"
  hf_write_fails :: "ustr \<Rightarrow> bool"

record clock =
  c_created_time :: ustr
  c_stamp :: ustr

definition bind_r :: "'e + 'a \<Rightarrow> ('a \<Rightarrow> 'e + 'b) \<Rightarrow> 'e + 'b" where
  "bind_r r f = (case r of Inl e \<Rightarrow> Inl e | Inr x \<Rightarrow> f x)"

fun map_r :: "('a \<Rightarrow> 'e + 'b) \<Rightarrow> 'a list \<Rightarrow> 'e + 'b list" where
  "map_r f [] = Inr []"
| "map_r f (x # xs) = bind_r (f x) (\<lambda>y. bind_r (map_r f xs) (\<lambda>ys. Inr (y # ys)))"

fun py_len :: "json \<Rightarrow> exn + nat" where
  "py_len (JArr xs) = Inr (length xs)"
| "py_len (JStr s) = Inr (length s)"
| "py_len (JObj kvs) = Inr (length kvs)"
| "py_len _ = Inl (Exn TypeError (asc ''object has no len()''))"

fun py_iter :: "json \<Rightarrow> exn + json list" where
  "py_iter (JArr xs) = Inr xs"
| "py_iter (JStr s) = Inr (map (\<lambda>c. JStr [c]) s)"
| "py_iter (JObj kvs) = Inr (map (\<lambda>kv. JStr (fst kv)) kvs)"
| "py_iter _ = Inl (Exn TypeError (asc ''object is not iterable''))"

definition count_status :: "ustr \<Rightarrow> json \<Rightarrow> exn + nat" where
  "count_status st prompt_data =
     bind_r (py_iter prompt_data) (\<lambda>ps.
     bind_r (map_r (\<lambda>p. py_get p (asc ''status'') JNull) ps) (\<lambda>ss.
     Inr (length (filter (\<lambda>s. s = JStr st) ss))))"

definition prompt_texts :: "json \<Rightarrow> exn + json" where
  "prompt_texts prompt_data =
     bind_r (py_iter prompt_data) (\<lambda>ps.
     bind_r (map_r (\<lambda>p. bind_r (py_get p (asc ''prompt'') (JStr []))
                           (\<lambda>v. Inr (JObj [(asc ''prompt'', v)]))) ps) (\<lambda>items.
     Inr (JArr items)))"

definition config_subset :: "json \<Rightarrow> exn + json" where
  "config_subset config_data =
     bind_r (py_get config_data (asc ''api_platform'') (JStr [])) (\<lambda>api_platform.
     bind_r (py_get config_data (asc ''model_type'') (JStr [])) (\<lambda>model_type.
     bind_r (py_get config_data (asc ''thread_count'') (JInt 5)) (\<lambda>thread_count.
     bind_r (py_get config_data (asc ''retry_count'') (JInt 3)) (\<lambda>retry_count.
     bind_r (py_get config_data (asc ''image_ratio'') (JStr (asc ''3:2''))) (\<lambda>image_ratio.
     bind_r (py_get config_data (asc ''current_style'') (JStr [])) (\<lambda>current_style.
     bind_r (py_get config_data (asc ''custom_style_content'') (JStr [])) (\<lambda>custom_style_content.
     Inr (JObj [(asc ''api_platform'', api_platform), (asc ''model_type'', model_type),
                (asc ''thread_count'', thread_count), (asc ''retry_count'', retry_count),
                (asc ''image_ratio'', image_ratio), (asc ''current_style'', current_style),
                (asc ''custom_style_content'', custom_style_content)]))))))))"

definition make_history_record :: "clock \<Rightarrow> json \<Rightarrow> json \<Rightarrow> exn + json" where
  "make_history_record clk prompt_data config_data =
     bind_r (py_len prompt_data) (\<lambda>total.
     bind_r (count_status st_success prompt_data) (\<lambda>succeeded.
     bind_r (count_status st_failed prompt_data) (\<lambda>failed.
     bind_r (config_subset config_data) (\<lambda>config.
     Inr (JObj [(asc ''version'', JStr (asc ''3.4'')),
                (asc ''created_time'', JStr (c_created_time clk)),
                (asc ''total_prompts'', JInt (int total)),
                (asc ''success_count'', JInt (int succeeded)),
                (asc ''failed_count'', JInt (int failed)),
                (asc ''config'', config),
                (asc ''prompts'', prompt_data)])))))"

definition content_for_hash :: "json \<Rightarrow> json \<Rightarrow> exn + json" where
  "content_for_hash config prompts_value =
     bind_r (prompt_texts prompts_value) (\<lambda>texts.
     Inr (JObj [(asc ''config'', config), (asc ''prompts'', texts)]))"

text \<open>
  The scan of \<^verbatim>\<open>sora_history_*.json\<close>: each listed file is read and hashed inside a
  \<^verbatim>\<open>try\<close> that skips the file on \<open>JSONDecodeError\<close>, \<open>IOError\<close> and \<open>KeyError\<close>; any other
  exception leaves the loop.
\<close>

definition ends_with :: "ustr \<Rightarrow> ustr \<Rightarrow> bool" where
  "ends_with ending s \<longleftrightarrow> length ending \<le> length s \<and> drop (length s - length ending) s = ending"

definition history_path :: "ustr \<Rightarrow> ustr" where
  "history_path app_path = os_path_join app_path (asc ''history'')"

definition glob_matches :: "ustr \<Rightarrow> ustr \<Rightarrow> bool" where
  "glob_matches dir p =
     (case strip_prefix (dir @ [47]) p of
        None \<Rightarrow> False
      | Some name \<Rightarrow>
          47 \<notin> set name \<and>
          (case strip_prefix (asc ''sora_history_'') name of
             None \<Rightarrow> False
           | Some rest \<Rightarrow> ends_with (asc ''.json'') rest))"

datatype scan = Skip | Match | Abort exn

definition examine_existing :: "(json \<Rightarrow> exn + ustr) \<Rightarrow> ustr \<Rightarrow> fcontent \<Rightarrow> scan" where
  "examine_existing digest content_hash c =
     (case c of
        Unreadable \<Rightarrow> Skip
      | NotJson \<Rightarrow> Skip
      | NotUtf8 \<Rightarrow> Abort (Exn ValueError (asc ''utf-8 codec cannot decode''))
      | Doc existing_data \<Rightarrow>
          (case bind_r (py_get existing_data (asc ''config'') (JObj [])) (\<lambda>config.
                bind_r (py_get existing_data (asc ''prompts'') (JArr [])) (\<lambda>prompts_value.
                bind_r (content_for_hash config prompts_value) digest)) of
             Inl e \<Rightarrow> if exn_class_of e \<in> {JSONDecodeError, OSError, KeyError} then Skip else Abort e
           | Inr existing_hash \<Rightarrow> if existing_hash = content_hash then Match else Skip))"

fun find_duplicate ::
  "(json \<Rightarrow> exn + ustr) \<Rightarrow> ustr \<Rightarrow> (ustr \<times> fcontent) list \<Rightarrow> exn + ustr option" where
  "find_duplicate digest content_hash [] = Inr None"
| "find_duplicate digest content_hash ((p, c) # files) =
     (case examine_existing digest content_hash c of
        Match \<Rightarrow> Inr (Some p)
      | Skip \<Rightarrow> find_duplicate digest content_hash files
      | Abort e \<Rightarrow> Inl e)"

text \<open>
  Writing a document: the file is opened for writing with the UTF-8 encoding, so a lone
  surrogate in a string stops the dump after the file has been truncated.
\<close>

fun has_surrogate :: "json \<Rightarrow> bool" where
  "has_surrogate (JStr s) = (\<exists>c\<in>set s. 55296 \<le> c \<and> c \<le> 57343)"
| "has_surrogate (JArr xs) = (\<exists>x\<in>set xs. has_surrogate x)"
| "has_surrogate (JObj kvs) =
     (\<exists>kv\<in>set kvs. (\<exists>c\<in>set (fst kv). 55296 \<le> c \<and> c \<le> 57343) \<or> has_surrogate (snd kv))"
| "has_surrogate _ = False"

fun put_file :: "ustr \<Rightarrow> fcontent \<Rightarrow> (ustr \<times> fcontent) list \<Rightarrow> (ustr \<times> fcontent) list" where
  "put_file p c [] = [(p, c)]"
| "put_file p c ((q, d) # files) = (if q = p then (p, c) # files else (q, d) # put_file p c files)"

definition write_json :: "ustr \<Rightarrow> json \<Rightarrow> hfs \<Rightarrow> exn option \<times> hfs" where
  "write_json p v fs =
     (if hf_write_fails fs p \<or> \<not> hf_dir_exists fs
      then (Some (Exn OSError (asc ''cannot open file for writing'')), fs)
      else if has_surrogate v
      then (Some (Exn ValueError (asc ''utf-8 codec cannot encode surrogates'')),
            fs\<lparr>hf_files := put_file p NotJson (hf_files fs)\<rparr>)
      else (None, fs\<lparr>hf_files := put_file p (Doc v) (hf_files fs)\<rparr>))"

fun dict_set :: "ustr \<Rightarrow> json \<Rightarrow> (ustr \<times> json) list \<Rightarrow> (ustr \<times> json) list" where
  "dict_set k v [] = [(k, v)]"
| "dict_set k v ((k', v') # kvs) = (if k' = k then (k, v) # kvs else (k', v') # dict_set k v kvs)"

definition refresh_record :: "json \<Rightarrow> json \<Rightarrow> json \<Rightarrow> exn + json" where
  "refresh_record history_record prompt_data existing_data =
     (case (history_record, existing_data) of
        (JObj new, JObj old) \<Rightarrow>
          Inr (JObj (dict_set (asc ''prompts'') prompt_data
                    (dict_set (asc ''failed_count'') (the (map_of new (asc ''failed_count'')))
                    (dict_set (asc ''success_count'') (the (map_of new (asc ''success_count'')))
                    (dict_set (asc ''total_prompts'') (the (map_of new (asc ''total_prompts'')))
                    (dict_set (asc ''created_time'') (the (map_of new (asc ''created_time''))) old))))))
      | _ \<Rightarrow> Inl (Exn TypeError (asc ''object does not support item assignment'')))"

definition update_duplicate :: "json \<Rightarrow> json \<Rightarrow> ustr \<Rightarrow> hfs \<Rightarrow> exn option \<times> hfs" where
  "update_duplicate history_record prompt_data duplicate_file fs =
     (case map_of (hf_files fs) duplicate_file of
        Some (Doc existing_data) \<Rightarrow>
          (case refresh_record history_record prompt_data existing_data of
             Inl e \<Rightarrow> (Some e, fs)
           | Inr updated \<Rightarrow> write_json duplicate_file updated fs)
      | _ \<Rightarrow> (Some (Exn OSError (asc ''cannot read file'')), fs))"

definition choose_filename :: "clock \<Rightarrow> ustr option \<Rightarrow> ustr" where
  "choose_filename clk filename =
     (let name = (case filename of
                    None \<Rightarrow> asc ''sora_history_'' @ c_stamp clk @ asc ''.json''
                  | Some f \<Rightarrow> if f = [] then asc ''sora_history_'' @ c_stamp clk @ asc ''.json'' else f)
      in if \<not> ends_with (asc ''.json'') name then name @ asc ''.json'' else name)"

definition write_new :: "clock \<Rightarrow> json \<Rightarrow> ustr \<Rightarrow> ustr option \<Rightarrow> hfs \<Rightarrow> (exn + ustr) \<times> hfs" where
  "write_new clk history_record app_path filename fs =
     (let file_path = os_path_join (history_path app_path) (choose_filename clk filename)
      in case write_json file_path history_record fs of
           (Some e, fs') \<Rightarrow> (Inl e, fs')
         | (None, fs') \<Rightarrow> (Inr file_path, fs'))"

definition ensure_history_directory :: "hfs \<Rightarrow> exn option \<times> hfs" where
  "ensure_history_directory fs =
     (if \<not> hf_dir_exists fs
      then (if hf_mkdir_fails fs then (Some (Exn OSError (asc ''cannot create directory'')), fs)
            else (None, fs\<lparr>hf_dir_exists := True\<rparr>))
      else (None, fs))"

text \<open>
  The body of the outer \<^verbatim>\<open>try\<close>, and the function with its \<^verbatim>\<open>except Exception\<close>, which
  turns every exception of that class into the result \<open>None\<close>.
\<close>

definition save_history_body ::
  "(json \<Rightarrow> exn + ustr) \<Rightarrow> clock \<Rightarrow> json \<Rightarrow> json \<Rightarrow> ustr \<Rightarrow> ustr option \<Rightarrow> hfs
     \<Rightarrow> (exn + ustr) \<times> hfs" where
  "save_history_body digest clk prompt_data config_data app_path filename fs0 =
     (case ensure_history_directory fs0 of
        (Some e, fs) \<Rightarrow> (Inl e, fs)
      | (None, fs) \<Rightarrow>
          (case bind_r (make_history_record clk prompt_data config_data) (\<lambda>history_record.
                bind_r (config_subset config_data) (\<lambda>config.
                bind_r (content_for_hash config prompt_data) (\<lambda>content.
                bind_r (digest content) (\<lambda>content_hash.
                bind_r (find_duplicate digest content_hash
                          (filter (\<lambda>f. glob_matches (history_path app_path) (fst f)) (hf_files fs)))
                  (\<lambda>duplicate_file. Inr (history_record, duplicate_file)))))) of
             Inl e \<Rightarrow> (Inl e, fs)
           | Inr (history_record, None) \<Rightarrow> write_new clk history_record app_path filename fs
           | Inr (history_record, Some duplicate_file) \<Rightarrow>
               (case update_duplicate history_record prompt_data duplicate_file fs of
                  (None, fs') \<Rightarrow> (Inr duplicate_file, fs')
                | (Some e, fs') \<Rightarrow>
                    if is_Exception e then write_new clk history_record app_path filename fs'
                    else (Inl e, fs'))))"

definition save_history_record ::
  "(json \<Rightarrow> exn + ustr) \<Rightarrow> clock \<Rightarrow> json \<Rightarrow> json \<Rightarrow> ustr \<Rightarrow> ustr option \<Rightarrow> hfs
     \<Rightarrow> (exn + ustr option) \<times> hfs" where
  "save_history_record digest clk prompt_data config_data app_path filename fs0 =
     (case save_history_body digest clk prompt_data config_data app_path filename fs0 of
        (Inr p, fs) \<Rightarrow> (Inr (Some p), fs)
      | (Inl e, fs) \<Rightarrow> if is_Exception e then (Inr None, fs) else (Inl e, fs))"

text \<open>An outcome whose exception, if any, \<^verbatim>\<open>except Exception\<close> catches.\<close>

definition catchable :: "exn + 'a \<Rightarrow> bool" where
  "catchable r \<longleftrightarrow> (case r of Inl e \<Rightarrow> is_Exception e | Inr x \<Rightarrow> True)"

text \<open>
  For the examples: a digest that is the serialization itself, an empty history
  directory, a batch of one finished prompt, and two saves of it, once under the names
  that the automatic save passes and once under the default name.
\<close>

definition plain_digest :: "json \<Rightarrow> exn + ustr" where
  "plain_digest c =
     (if has_surrogate c then Inl (Exn ValueError (asc ''utf-8 codec cannot encode surrogates''))
      else Inr (json_dumps c))"

definition empty_store :: hfs where
  "empty_store = \<lparr>hf_dir_exists = True, hf_mkdir_fails = False, hf_files = [],
                  hf_write_fails = (\<lambda>p. False)\<rparr>"

definition one_cat :: json where
  "one_cat = JArr [JObj [(asc ''number'', JStr (asc ''1'')), (asc ''prompt'', JStr (asc ''a cat'')),
                         (asc ''status'', JStr st_success)]]"

definition named_first :: "(exn + ustr option) \<times> hfs" where
  "named_first = save_history_record plain_digest \<lparr>c_created_time = asc ''2025-01-01 10:00:00'',
       c_stamp = asc ''20250101_100000''\<rparr> one_cat (JObj []) (asc ''app'')
       (Some (asc ''auto_save_20250101_100000'')) empty_store"

definition named_second :: "(exn + ustr option) \<times> hfs" where
  "named_second = save_history_record plain_digest \<lparr>c_created_time = asc ''2025-01-01 10:05:00'',
       c_stamp = asc ''20250101_100500''\<rparr> one_cat (JObj []) (asc ''app'')
       (Some (asc ''auto_save_20250101_100500'')) (snd named_first)"

definition default_first :: "(exn + ustr option) \<times> hfs" where
  "default_first = save_history_record plain_digest \<lparr>c_created_time = asc ''2025-01-01 10:00:00'',
       c_stamp = asc ''20250101_100000''\<rparr> one_cat (JObj []) (asc ''app'') None empty_store"

definition default_second :: "(exn + ustr option) \<times> hfs" where
  "default_second = save_history_record plain_digest \<lparr>c_created_time = asc ''2025-01-01 10:05:00'',
       c_stamp = asc ''20250101_100500''\<rparr> one_cat (JObj []) (asc ''app'') None (snd default_first)"

section \<open>Proofs: unique file names\<close>

lemma dec_nonempty: "dec n \<noteq> []"
  by (subst dec.simps) simp

lemma dec_inj: "dec n = dec m \<Longrightarrow> n = m"
proof (induction n arbitrary: m rule: dec.induct)
  case (1 n)
  show ?case
  proof (cases "n < 10")
    case True
    note n = this
    show ?thesis
    proof (cases "m < 10")
      case True
      with n 1(2) show ?thesis by (simp add: dec.simps [of n] dec.simps [of m])
    next
      case False
      with n 1(2) dec_nonempty [of "m div 10"] show ?thesis
        by (simp add: dec.simps [of n] dec.simps [of m])
    qed
  next
    case False
    note n = this
    show ?thesis
    proof (cases "m < 10")
      case True
      with n 1(2) dec_nonempty [of "n div 10"] show ?thesis
        by (simp add: dec.simps [of n] dec.simps [of m])
    next
      case False
      with n 1(2) have "dec (n div 10) = dec (m div 10)" and "n mod 10 = m mod 10"
        by (simp_all add: dec.simps [of n] dec.simps [of m])
      with 1(1) [OF n] have "n div 10 = m div 10" by simp
      with \<open>n mod 10 = m mod 10\<close> show ?thesis
        by (metis div_mult_mod_eq)
    qed
  qed
qed

lemma os_path_join_inj: "os_path_join a b = os_path_join a c \<Longrightarrow> hd b = hd c \<Longrightarrow> b \<noteq> [] \<Longrightarrow> c \<noteq> [] \<Longrightarrow> b = c"
  by (auto simp: os_path_join_def split: if_splits)

lemma suffixed_name_inj: "suffixed_name number j = suffixed_name number k \<Longrightarrow> j = k"
  by (simp add: suffixed_name_def dec_inj)

lemma suffixed_name_hd: "hd (suffixed_name number j) = hd (suffixed_name number k)"
  by (cases number) (simp_all add: suffixed_name_def asc_def)

lemma suffixed_name_nonempty: "suffixed_name number j \<noteq> []"
  by (simp add: suffixed_name_def asc_def)

lemma suffixed_path_inj:
  "inj (\<lambda>k. os_path_join save_path (suffixed_name number k))"
proof (rule injI)
  fix j k
  assume "os_path_join save_path (suffixed_name number j) = os_path_join save_path (suffixed_name number k)"
  then have "suffixed_name number j = suffixed_name number k"
    by (rule os_path_join_inj) (simp_all add: suffixed_name_hd suffixed_name_nonempty)
  then show "j = k" by (rule suffixed_name_inj)
qed

lemma free_counter_exists:
  assumes "finite {p. path_exists p}"
  shows "\<exists>k\<ge>c. \<not> path_exists (os_path_join save_path (suffixed_name number k))"
proof (rule ccontr)
  assume "\<not> ?thesis"
  then have all: "\<And>k. c \<le> k \<Longrightarrow> path_exists (os_path_join save_path (suffixed_name number k))"
    by auto
  let ?f = "\<lambda>k. os_path_join save_path (suffixed_name number k)"
  have "?f ` {c..} \<subseteq> {p. path_exists p}" using all by auto
  then have "finite (?f ` {c..})" using assms by (rule finite_subset)
  moreover have "inj_on ?f {c..}" using suffixed_path_inj by (rule inj_on_subset) simp
  ultimately have "finite {c..}" by (rule finite_imageD)
  then show False by (simp add: infinite_Ici)
qed

lemma probe_counter_first_free:
  assumes "\<not> path_exists (os_path_join save_path (suffixed_name number k))"
    and "\<forall>j. c \<le> j \<and> j < k \<longrightarrow> path_exists (os_path_join save_path (suffixed_name number j))"
    and "c \<le> k"
  shows "probe_counter path_exists number save_path c = Some (suffixed_name number k)"
  using assms
proof (induction "k - c" arbitrary: c)
  case 0
  then have "c = k" by simp
  with 0 show ?case by (subst probe_counter.simps) simp
next
  case (Suc d)
  then have "c < k" by simp
  with Suc.prems have ex: "path_exists (os_path_join save_path (suffixed_name number c))" by simp
  have "probe_counter path_exists number save_path (c + 1) = Some (suffixed_name number k)"
    using Suc.hyps Suc.prems \<open>c < k\<close> by (intro Suc.hyps(1)) auto
  with ex show ?case by (subst probe_counter.simps) simp
qed

text \<open>
  C7. On a file system with finitely many paths, the derived file name is \<open>number.png\<close> when
  that path is unused, and otherwise the first of \<open>number-2.png\<close>, \<open>number-3.png\<close>, ... whose
  path is unused; the loop returns, and the name it returns is never that of an existing
  path. With \<open>7.png\<close> present the result for key 7 is \<open>7-2.png\<close>, and with \<open>7-2.png\<close> present
  too it is \<open>7-3.png\<close>.
\<close>

theorem get_unique_filename_first_unused:
  assumes fin: "finite {p. path_exists p}"
  shows "(\<exists>f. get_unique_filename path_exists number save_path = Some f \<and>
            \<not> path_exists (os_path_join save_path f) \<and>
            (if \<not> path_exists (os_path_join save_path (number @ asc ''.png''))
             then f = number @ asc ''.png''
             else \<exists>k\<ge>2. f = number @ asc ''-'' @ dec k @ asc ''.png'' \<and>
                    (\<forall>j. 2 \<le> j \<and> j < k \<longrightarrow>
                       path_exists (os_path_join save_path (number @ asc ''-'' @ dec j @ asc ''.png'')))))
       \<and> get_unique_filename (\<lambda>p. p = os_path_join d (asc ''7.png'')) (asc ''7'') d
           = Some (asc ''7-2.png'')
       \<and> get_unique_filename
            (\<lambda>p. p = os_path_join d (asc ''7.png'') \<or> p = os_path_join d (asc ''7-2.png''))
            (asc ''7'') d
           = Some (asc ''7-3.png'')"
proof (intro conjI)
  let ?P = "\<lambda>k. \<not> path_exists (os_path_join save_path (suffixed_name number k))"
  show "\<exists>f. get_unique_filename path_exists number save_path = Some f \<and>
            \<not> path_exists (os_path_join save_path f) \<and>
            (if \<not> path_exists (os_path_join save_path (number @ asc ''.png''))
             then f = number @ asc ''.png''
             else \<exists>k\<ge>2. f = number @ asc ''-'' @ dec k @ asc ''.png'' \<and>
                    (\<forall>j. 2 \<le> j \<and> j < k \<longrightarrow>
                       path_exists (os_path_join save_path (number @ asc ''-'' @ dec j @ asc ''.png''))))"
  proof (cases "path_exists (os_path_join save_path (number @ asc ''.png''))")
    case False
    then show ?thesis by (simp add: get_unique_filename_def)
  next
    case True
    from free_counter_exists [OF fin, of 2 save_path number]
    obtain k0 where k0: "2 \<le> k0" "?P k0" by blast
    define k where "k = (LEAST k. 2 \<le> k \<and> ?P k)"
    have k: "2 \<le> k \<and> ?P k"
      unfolding k_def by (rule LeastI [of "\<lambda>k. 2 \<le> k \<and> ?P k" k0]) (simp add: k0)
    have below: "\<forall>j. 2 \<le> j \<and> j < k \<longrightarrow> path_exists (os_path_join save_path (suffixed_name number j))"
    proof (intro allI impI)
      fix j assume j: "2 \<le> j \<and> j < k"
      then have "\<not> (2 \<le> j \<and> ?P j)" unfolding k_def by (auto dest: not_less_Least)
      with j show "path_exists (os_path_join save_path (suffixed_name number j))" by simp
    qed
    from k below have "probe_counter path_exists number save_path 2 = Some (suffixed_name number k)"
      by (intro probe_counter_first_free) auto
    with True have "get_unique_filename path_exists number save_path = Some (suffixed_name number k)"
      by (simp add: get_unique_filename_def)
    with True k below show ?thesis
      by (auto simp: suffixed_name_def)
  qed
next
  have ne: "os_path_join d (asc ''7-2.png'') \<noteq> os_path_join d (asc ''7.png'')"
    by (auto simp: os_path_join_def asc_def)
  show "get_unique_filename (\<lambda>p. p = os_path_join d (asc ''7.png'')) (asc ''7'') d
           = Some (asc ''7-2.png'')"
    using ne
    by (simp add: get_unique_filename_def probe_counter.simps suffixed_name_def dec.simps asc_def)
next
  have ne: "os_path_join d (asc ''7-3.png'') \<noteq> os_path_join d (asc ''7.png'')"
     "os_path_join d (asc ''7-3.png'') \<noteq> os_path_join d (asc ''7-2.png'')"
    by (auto simp: os_path_join_def asc_def)
  show "get_unique_filename
            (\<lambda>p. p = os_path_join d (asc ''7.png'') \<or> p = os_path_join d (asc ''7-2.png''))
            (asc ''7'') d
           = Some (asc ''7-3.png'')"
    using ne
    by (simp add: get_unique_filename_def probe_counter.simps suffixed_name_def dec.simps asc_def)
qed

theorem get_unique_filename_first_unused_witness:
  "finite {p. p \<in> set [asc ''out/7.png'', asc ''out/7-2.png'']} \<and>
   get_unique_filename (\<lambda>p. p \<in> set [asc ''out/7.png'', asc ''out/7-2.png'']) (asc ''7'') (asc ''out'')
     = Some (asc ''7-3.png'')"
proof -
  have fin: "finite {p. p \<in> set [asc ''out/7.png'', asc ''out/7-2.png'']}" by simp
  have "get_unique_filename (\<lambda>p. p \<in> set [asc ''out/7.png'', asc ''out/7-2.png'']) (asc ''7'') (asc ''out'')
     = Some (asc ''7-3.png'')"
    by (simp add: get_unique_filename_def probe_counter.simps suffixed_name_def dec.simps asc_def os_path_join_def)
  with fin get_unique_filename_first_unused [OF fin, of "asc ''7''" "asc ''out''" "[]"]
  show ?thesis by simp
qed

section \<open>Proofs: response parsing\<close>

lemma strip_prefix_append: "strip_prefix p (p @ s) = Some s"
  by (induction p) simp_all

lemma strip_prefix_SomeD: "strip_prefix p s = Some r \<Longrightarrow> s = p @ r"
  by (induction p s rule: strip_prefix.induct) (auto split: if_splits)

lemma re_search_SomeD: "re_search m t = Some g \<Longrightarrow> \<exists>pre s. t = pre @ s \<and> m s = Some g"
proof (induction t)
  case Nil
  then show ?case by auto
next
  case (Cons c cs)
  show ?case
  proof (cases "m (c # cs)")
    case (Some g')
    with Cons.prems have "m (c # cs) = Some g" by simp
    then show ?thesis by (intro exI [of _ "[]"] exI [of _ "c # cs"]) simp
  next
    case None
    with Cons.prems have "re_search m cs = Some g" by simp
    from Cons.IH [OF this] obtain pre s where "cs = pre @ s" "m s = Some g" by blast
    then show ?thesis by (intro exI [of _ "c # pre"] exI [of _ s]) simp
  qed
qed

lemma re_search_found: "m s \<noteq> None \<Longrightarrow> re_search m (pre @ s) \<noteq> None"
proof (induction pre)
  case Nil
  then show ?case by (cases s) auto
next
  case (Cons c pre)
  then show ?case by (cases "m (c # pre @ s)") auto
qed

lemma match_data_uri_at_SomeD:
  assumes "match_data_uri_at s = Some m"
  shows "\<exists>mime payload post.
           s = asc ''data:image/'' @ mime @ asc '';base64,'' @ payload @ post \<and>
           m = asc ''data:image/'' @ mime @ asc '';base64,'' @ payload \<and>
           mime \<noteq> [] \<and> 59 \<notin> set mime \<and> payload \<noteq> [] \<and> list_all is_base64_char payload"
proof -
  from assms obtain r where r: "strip_prefix (asc ''data:image/'') s = Some r"
    by (auto simp: match_data_uri_at_def split: option.splits)
  define mime where "mime = takeWhile (\<lambda>c. c \<noteq> 59) r"
  define r2 where "r2 = dropWhile (\<lambda>c. c \<noteq> 59) r"
  from assms r have mime: "mime \<noteq> []"
    by (auto simp: match_data_uri_at_def mime_def Let_def split: option.splits if_splits)
  from assms r mime obtain r3 where r3: "strip_prefix (asc '';base64,'') r2 = Some r3"
    by (auto simp: match_data_uri_at_def mime_def r2_def Let_def split: option.splits if_splits)
  define payload where "payload = takeWhile is_base64_char r3"
  from assms r mime r3 have payload: "payload \<noteq> []"
    and m: "m = asc ''data:image/'' @ mime @ asc '';base64,'' @ payload"
    by (auto simp: match_data_uri_at_def mime_def r2_def payload_def Let_def split: option.splits if_splits)
  have "r = mime @ r2" by (simp add: mime_def r2_def)
  moreover have "r2 = asc '';base64,'' @ r3" using r3 by (rule strip_prefix_SomeD)
  moreover have "r3 = payload @ dropWhile is_base64_char r3" by (simp add: payload_def)
  moreover have "s = asc ''data:image/'' @ r" using r by (rule strip_prefix_SomeD)
  ultimately have s: "s = asc ''data:image/'' @ mime @ asc '';base64,'' @ payload @ dropWhile is_base64_char r3"
    by simp
  have "59 \<notin> set mime" unfolding mime_def by (auto dest: set_takeWhileD)
  moreover have "list_all is_base64_char payload"
    unfolding payload_def by (auto simp: list_all_iff dest: set_takeWhileD)
  ultimately show ?thesis using s m mime payload by blast
qed

lemma takeWhile_until: "x \<notin> set xs \<Longrightarrow> takeWhile (\<lambda>c. c \<noteq> x) (xs @ x # ys) = xs"
  by (induction xs) auto

lemma dropWhile_until: "x \<notin> set xs \<Longrightarrow> dropWhile (\<lambda>c. c \<noteq> x) (xs @ x # ys) = x # ys"
  by (induction xs) auto

lemma match_data_uri_at_found:
  assumes "mime \<noteq> []" "59 \<notin> set mime" "payload \<noteq> []" "list_all is_base64_char payload"
  shows "match_data_uri_at (asc ''data:image/'' @ mime @ asc '';base64,'' @ payload @ post) \<noteq> None"
proof -
  let ?rest = "asc '';base64,'' @ payload @ post"
  have hd59: "?rest = 59 # asc ''base64,'' @ payload @ post" by (simp add: asc_def)
  have tw: "takeWhile (\<lambda>c. c \<noteq> 59) (mime @ ?rest) = mime"
    using assms(2) by (subst hd59) (rule takeWhile_until)
  have dw: "dropWhile (\<lambda>c. c \<noteq> 59) (mime @ ?rest) = ?rest"
    using assms(2) by (subst (1 2) hd59) (rule dropWhile_until)
  have pl: "takeWhile is_base64_char (payload @ post) = payload @ takeWhile is_base64_char post"
    using assms(4) by (simp add: takeWhile_append2 list_all_iff)
  show ?thesis
    using assms(1,3)
    by (simp add: match_data_uri_at_def strip_prefix_append tw dw pl Let_def del: append_assoc)
qed

lemma search_data_uri_iff: "search_data_uri t \<noteq> None \<longleftrightarrow> contains_data_uri t"
proof
  assume "search_data_uri t \<noteq> None"
  then obtain m where "re_search match_data_uri_at t = Some m"
    by (auto simp: search_data_uri_def)
  from re_search_SomeD [OF this] obtain pre s where t: "t = pre @ s" and "match_data_uri_at s = Some m"
    by blast
  from match_data_uri_at_SomeD [OF this(2)] t show "contains_data_uri t"
    unfolding contains_data_uri_def by blast
next
  assume "contains_data_uri t"
  then obtain pre mime payload post where
    t: "t = pre @ asc ''data:image/'' @ mime @ asc '';base64,'' @ payload @ post"
    and c: "mime \<noteq> []" "59 \<notin> set mime" "payload \<noteq> []" "list_all is_base64_char payload"
    unfolding contains_data_uri_def by blast
  from match_data_uri_at_found [OF c] show "search_data_uri t \<noteq> None"
    unfolding search_data_uri_def t by (rule re_search_found)
qed

section \<open>Proofs: the retry loop\<close>

lemma expected_trace_Suc: "expected_trace (Suc n) = expected_trace n @ attempt_events (Suc n)"
  by (simp add: expected_trace_def)

lemma expected_trace_0: "expected_trace 0 = []"
  by (simp add: expected_trace_def)

lemma count_requested_attempt_events: "count_list (attempt_events i) Requested = 1"
  by (simp add: attempt_events_def)

lemma count_list_append: "count_list (xs @ ys) x = count_list xs x + count_list ys x"
  by (induction xs) auto

lemma count_requested_expected_trace: "count_list (expected_trace n) Requested = n"
  by (induction n) (simp_all add: expected_trace_0 expected_trace_Suc count_list_append count_requested_attempt_events)

lemma hd_expected_trace: "0 < n \<Longrightarrow> hd (expected_trace n) = Requested"
proof (induction n)
  case 0 then show ?case by simp
next
  case (Suc n)
  show ?case
  proof (cases "n = 0")
    case True
    then show ?thesis by (simp add: expected_trace_def attempt_events_def)
  next
    case False
    then have "expected_trace n \<noteq> []"
      by (cases n) (simp_all add: expected_trace_Suc attempt_events_def)
    with False Suc.IH show ?thesis by (simp add: expected_trace_Suc)
  qed
qed

lemma generate_loop_trace:
  "\<exists>n\<ge>attempt. (int n \<le> retry_count + 1 \<or> n = attempt) \<and>
      snd (generate_loop model_type net retry_count attempt (expected_trace attempt)) = expected_trace n \<and>
      (int n = retry_count + 1 \<and> attempt < n \<longrightarrow>
         fst (generate_loop model_type net retry_count attempt (expected_trace attempt))
           = outcome_of (request_once model_type (net (n - 1)))) \<and>
      (retry_count \<le> 1024 \<and> int attempt \<le> retry_count \<longrightarrow> attempt < n) \<and>
      (retry_count \<le> 1024 \<and> attempt < n \<longrightarrow>
         fst (generate_loop model_type net retry_count attempt (expected_trace attempt))
           = outcome_of (request_once model_type (net (n - 1))))"
proof (induction "nat (retry_count + 1 - int attempt)" arbitrary: attempt)
  case 0
  then have "\<not> int attempt \<le> retry_count" by simp
  then show ?case
    by (subst (1 2) generate_loop.simps) (auto intro!: exI [of _ attempt])
next
  case (Suc d)
  then have le: "int attempt \<le> retry_count" by simp
  show ?case
  proof (cases "0 < attempt \<and> 1024 \<le> attempt - 1")
    case True
    then show ?thesis using le
      by (subst (1 2) generate_loop.simps) (auto simp: backoff_delay_def caught_for_retry_def intro!: exI [of _ attempt])
  next
    case False
    define tr' where "tr' = expected_trace (Suc attempt)"
    have step: "generate_loop model_type net retry_count attempt (expected_trace attempt) =
       (case request_once model_type (net attempt) of
          Inr url \<Rightarrow> (Inr (Some url), tr')
        | Inl e \<Rightarrow> if caught_for_retry e
             then (if int (attempt + 1) > retry_count then (Inl e, tr')
                   else generate_loop model_type net retry_count (attempt + 1) tr')
             else (Inl e, tr'))"
      using le False
      by (subst generate_loop.simps)
         (auto simp: backoff_delay_def tr'_def expected_trace_Suc attempt_events_def split: sum.splits)
    show ?thesis
    proof (cases "request_once model_type (net attempt)")
      case (Inr url)
      with step le show ?thesis
        by (auto simp: tr'_def outcome_of_def intro!: exI [of _ "Suc attempt"])
    next
      case (Inl e)
      show ?thesis
      proof (cases "caught_for_retry e \<and> \<not> int (attempt + 1) > retry_count")
        case False
        with step Inl le show ?thesis
          by (auto simp: tr'_def outcome_of_def intro!: exI [of _ "Suc attempt"])
      next
        case True
        then have rec: "generate_loop model_type net retry_count attempt (expected_trace attempt) =
           generate_loop model_type net retry_count (Suc attempt) (expected_trace (Suc attempt))"
          using step Inl by (simp add: tr'_def)
        have "d = nat (retry_count + 1 - int (Suc attempt))" using Suc.hyps(2) by simp
        from Suc.hyps(1) [OF this]
        obtain n where n: "n \<ge> Suc attempt" "int n \<le> retry_count + 1 \<or> n = Suc attempt"
          "snd (generate_loop model_type net retry_count (Suc attempt) (expected_trace (Suc attempt))) = expected_trace n"
          "int n = retry_count + 1 \<and> Suc attempt < n \<longrightarrow>
             fst (generate_loop model_type net retry_count (Suc attempt) (expected_trace (Suc attempt)))
               = outcome_of (request_once model_type (net (n - 1)))"
          "retry_count \<le> 1024 \<and> int (Suc attempt) \<le> retry_count \<longrightarrow> Suc attempt < n"
          "retry_count \<le> 1024 \<and> Suc attempt < n \<longrightarrow>
             fst (generate_loop model_type net retry_count (Suc attempt) (expected_trace (Suc attempt)))
               = outcome_of (request_once model_type (net (n - 1)))"
          by blast
        from True n(2) have "int n \<le> retry_count + 1" by auto
        moreover from True n(1) have "int n = retry_count + 1 \<longrightarrow> Suc attempt < n" by auto
        moreover from True n(5) have "retry_count \<le> 1024 \<longrightarrow> Suc attempt < n" by auto
        ultimately show ?thesis using n rec
          by (intro exI [of _ n]) auto
      qed
    qed
  qed
qed

text \<open>
  C2. A call with retry limit \<open>r \<ge> 0\<close> makes \<open>n \<le> r + 1\<close> requests and its trace is exactly
  \<open>expected_trace n\<close>: no sleep before the first request, and before request \<open>i \<ge> 2\<close> a sleep
  of \<open>min(8, 0.5 * 2^(i-2))\<close> seconds. When request \<open>r + 1\<close> is made, the call ends with the
  outcome of that request, so its error is the one the caller receives. A call can end
  earlier: on success, on an exception that the loop does not catch, and at iteration 1025,
  where the delay computation itself raises. For \<open>r \<le> 1024\<close> that last case cannot occur,
  and a call with a key always ends with the outcome of the last request it made.
\<close>

theorem generate_retry_policy:
  assumes "0 \<le> retry_count"
  shows "\<exists>n. int n \<le> retry_count + 1 \<and>
           snd (generate_image_async api_key model_type net retry_count) = expected_trace n \<and>
           count_list (snd (generate_image_async api_key model_type net retry_count)) Requested = n \<and>
           (0 < n \<longrightarrow> hd (snd (generate_image_async api_key model_type net retry_count)) = Requested) \<and>
           (int n = retry_count + 1 \<longrightarrow>
              fst (generate_image_async api_key model_type net retry_count)
                = (case request_once model_type (net (n - 1)) of
                     Inl e \<Rightarrow> Inl e | Inr url \<Rightarrow> Inr (Some url))) \<and>
           (retry_count \<le> 1024 \<and> api_key \<noteq> [] \<longrightarrow>
              0 < n \<and>
              fst (generate_image_async api_key model_type net retry_count)
                = (case request_once model_type (net (n - 1)) of
                     Inl e \<Rightarrow> Inl e | Inr url \<Rightarrow> Inr (Some url)))"
proof (cases "api_key = []")
  case True
  with assms show ?thesis
    by (intro exI [of _ 0]) (simp add: generate_image_async_def expected_trace_0)
next
  case False
  from generate_loop_trace [of 0 retry_count model_type net]
  obtain n where n: "int n \<le> retry_count + 1 \<or> n = 0"
      "snd (generate_loop model_type net retry_count 0 []) = expected_trace n"
      "int n = retry_count + 1 \<and> 0 < n \<longrightarrow>
         fst (generate_loop model_type net retry_count 0 [])
           = outcome_of (request_once model_type (net (n - 1)))"
      "retry_count \<le> 1024 \<and> 0 \<le> retry_count \<longrightarrow> 0 < n"
      "retry_count \<le> 1024 \<and> 0 < n \<longrightarrow>
         fst (generate_loop model_type net retry_count 0 [])
           = outcome_of (request_once model_type (net (n - 1)))"
    by (auto simp: expected_trace_0)
  from n(1) assms have "int n \<le> retry_count + 1" by auto
  moreover from assms have "int n = retry_count + 1 \<longrightarrow> 0 < n" by auto
  moreover from assms n(4) have "retry_count \<le> 1024 \<longrightarrow> 0 < n" by simp
  ultimately show ?thesis using False n
    by (intro exI [of _ n])
       (auto simp: generate_image_async_def count_requested_expected_trace hd_expected_trace outcome_of_def)
qed

lemmas parse_eval =
  parse_response_def get_content_def parse_str_content_def parse_fallback_def
  match_link_at_def click_download_opening_def picture_opening_def
  search_data_uri_def match_data_uri_at_def is_base64_char_def
  dumps_str_def escape_char_def asc_def

lemma parse_list_content_no_image_part:
  "\<forall>part\<in>set parts. \<not> is_image_part part \<Longrightarrow> parse_list_content parts = Inl no_image_data_list"
  by (induction parts) (auto simp: is_image_part_def)

text \<open>
  C3, as amended. The scan of the serialized response is the branch for a content that is
  neither a string nor a list: there the parser returns the first data URI of the
  serialization and raises "response format cannot be parsed" exactly when there is none.
  A string content in which neither markdown pattern (default model only) nor a data URI
  is found raises "no image data" at once, and a list content without an image part raises
  "no image data (list)" at once; neither reaches the scan.
\<close>

theorem parse_response_fallback_scope:
  assumes "get_content data = Inr content"
  shows "(\<not> is_str content \<and> \<not> is_list content \<longrightarrow>
            (contains_data_uri (json_dumps data) \<longrightarrow>
               (\<exists>m. search_data_uri (json_dumps data) = Some m \<and>
                    parse_response model_type data = Inr (JStr m))) \<and>
            (\<not> contains_data_uri (json_dumps data) \<longrightarrow>
               parse_response model_type data = Inl unparseable_format))
       \<and> (\<forall>s. content = JStr s \<and>
                (model_type = asc ''nano-banana'' \<or>
                 (re_search (match_link_at click_download_opening) s = None \<and>
                  re_search (match_link_at picture_opening) s = None)) \<and>
                search_data_uri s = None \<longrightarrow>
              parse_response model_type data = Inl no_image_data)
       \<and> (\<forall>parts. content = JArr parts \<and> (\<forall>part\<in>set parts. \<not> is_image_part part) \<longrightarrow>
              parse_response model_type data = Inl no_image_data_list)"
proof (intro conjI impI allI)
  assume c: "\<not> is_str content \<and> \<not> is_list content"
  then have fb: "parse_response model_type data = parse_fallback data"
    using assms by (cases content) (simp_all add: parse_response_def)
  {
    assume "contains_data_uri (json_dumps data)"
    then have "search_data_uri (json_dumps data) \<noteq> None" using search_data_uri_iff by blast
    then obtain m where "search_data_uri (json_dumps data) = Some m" by auto
    then show "\<exists>m. search_data_uri (json_dumps data) = Some m \<and>
                    parse_response model_type data = Inr (JStr m)"
      using fb by (simp add: parse_fallback_def)
  }
  {
    assume "\<not> contains_data_uri (json_dumps data)"
    then have "search_data_uri (json_dumps data) = None" using search_data_uri_iff by blast
    then show "parse_response model_type data = Inl unparseable_format"
      using fb by (simp add: parse_fallback_def)
  }
next
  fix s
  assume "content = JStr s \<and>
                (model_type = asc ''nano-banana'' \<or>
                 (re_search (match_link_at click_download_opening) s = None \<and>
                  re_search (match_link_at picture_opening) s = None)) \<and>
                search_data_uri s = None"
  then show "parse_response model_type data = Inl no_image_data"
    using assms by (auto simp: parse_response_def parse_str_content_def)
next
  fix parts
  assume "content = JArr parts \<and> (\<forall>part\<in>set parts. \<not> is_image_part part)"
  then show "parse_response model_type data = Inl no_image_data_list"
    using assms by (simp add: parse_response_def parse_list_content_no_image_part)
qed

text \<open>
  Two responses whose serialization contains a data URI and which still end in a parse
  error: a string content without a locator beside a field that holds the URI, and a list
  content whose only part is a text part that holds it.
\<close>

theorem parse_response_fallback_counterexample:
  "parse_response (asc ''sora_image'')
     (JObj [(asc ''choices'', JArr [JObj [(asc ''message'', JObj [(asc ''content'', JStr (asc ''no image''))])]]),
            (asc ''note'', JStr (asc ''data:image/png;base64,AAAA''))])
     = Inl no_image_data
   \<and> search_data_uri (json_dumps
     (JObj [(asc ''choices'', JArr [JObj [(asc ''message'', JObj [(asc ''content'', JStr (asc ''no image''))])]]),
            (asc ''note'', JStr (asc ''data:image/png;base64,AAAA''))]))
     = Some (asc ''data:image/png;base64,AAAA'')
   \<and> parse_response (asc ''nano-banana'')
     (JObj [(asc ''choices'', JArr [JObj [(asc ''message'', JObj [(asc ''content'',
         JArr [JObj [(asc ''type'', JStr (asc ''text'')), (asc ''text'', JStr (asc ''data:image/png;base64,AAAA''))]])])]])])
     = Inl no_image_data_list
   \<and> search_data_uri (json_dumps
     (JObj [(asc ''choices'', JArr [JObj [(asc ''message'', JObj [(asc ''content'',
         JArr [JObj [(asc ''type'', JStr (asc ''text'')), (asc ''text'', JStr (asc ''data:image/png;base64,AAAA''))]])])]])]))
     = Some (asc ''data:image/png;base64,AAAA'')"
  by (simp add: parse_eval no_image_data_def no_image_data_list_def)

theorem parse_response_fallback_scope_witness:
  "get_content (JObj [(asc ''data'', JStr (asc ''data:image/png;base64,AAAA''))]) = Inr JNull
   \<and> contains_data_uri (json_dumps (JObj [(asc ''data'', JStr (asc ''data:image/png;base64,AAAA''))]))
   \<and> parse_response (asc ''sora_image'') (JObj [(asc ''data'', JStr (asc ''data:image/png;base64,AAAA''))])
       = Inr (JStr (asc ''data:image/png;base64,AAAA''))"
proof -
  let ?d = "JObj [(asc ''data'', JStr (asc ''data:image/png;base64,AAAA''))]"
  have g: "get_content ?d = Inr JNull" by (simp add: parse_eval)
  have s: "search_data_uri (json_dumps ?d) = Some (asc ''data:image/png;base64,AAAA'')"
    by (simp add: parse_eval)
  then have c: "contains_data_uri (json_dumps ?d)"
    using search_data_uri_iff [of "json_dumps ?d"] by simp
  from parse_response_fallback_scope [OF g, of "asc ''sora_image''"] c s
  have "parse_response (asc ''sora_image'') ?d = Inr (JStr (asc ''data:image/png;base64,AAAA''))"
    by simp
  with g c show ?thesis by simp
qed

theorem generate_retry_policy_witness:
  "(0::int) \<le> 1 \<and>
   generate_image_async (asc ''k'') (asc ''sora_image'') (\<lambda>i. Raises (Exn TimeoutError [])) 1
     = (Inl (Exn TimeoutError []), [Requested, Slept (1 / 2), Requested])
   \<and> (\<exists>n. int n \<le> 1 + 1 \<and>
        snd (generate_image_async (asc ''k'') (asc ''sora_image'') (\<lambda>i. Raises (Exn TimeoutError [])) 1)
          = expected_trace n)"
proof -
  have h: "(0::int) \<le> 1" by simp
  have e: "generate_image_async (asc ''k'') (asc ''sora_image'') (\<lambda>i. Raises (Exn TimeoutError [])) 1
     = (Inl (Exn TimeoutError []), [Requested, Slept (1 / 2), Requested])"
    by (simp add: generate_image_async_def generate_loop.simps request_once_def backoff_delay_def
          caught_for_retry_def asc_def)
  from generate_retry_policy [OF h, of "asc ''k''" "asc ''sora_image''" "\<lambda>i. Raises (Exn TimeoutError [])"]
  have "\<exists>n. int n \<le> 1 + 1 \<and>
        snd (generate_image_async (asc ''k'') (asc ''sora_image'') (\<lambda>i. Raises (Exn TimeoutError [])) 1)
          = expected_trace n"
    by blast
  with h e show ?thesis by blast
qed

section \<open>Proofs: ReferenceMatcher\<close>

lemma length_mask_span: "length (mask_span s e m) = length m"
proof -
  have "length (fold (\<lambda>i m. m[i := 0]) is m) = length m" for "is" :: "nat list"
    by (induction "is" arbitrary: m) simp_all
  then show ?thesis by (simp add: mask_span_def)
qed

lemma nth_mask_span:
  "i < length m \<Longrightarrow> mask_span s e m ! i = (if s \<le> i \<and> i < e then 0 else m ! i)"
proof -
  have len: "length (fold (\<lambda>i m. m[i := 0]) is m) = length m" for "is" :: "nat list" and m :: ustr
    by (induction "is" arbitrary: m) simp_all
  have "i < length m \<Longrightarrow> fold (\<lambda>i m. m[i := 0]) is m ! i = (if i \<in> set is then 0 else m ! i)"
    for "is" :: "nat list"
  proof (induction "is" arbitrary: m)
    case Nil
    then show ?case by simp
  next
    case (Cons j js)
    then show ?case by (auto simp: nth_list_update)
  qed
  then show "i < length m \<Longrightarrow> mask_span s e m ! i = (if s \<le> i \<and> i < e then 0 else m ! i)"
    by (simp add: mask_span_def)
qed

lemma slice_has_zero:
  "0 \<in> set (take (e - s) (drop s m)) \<longleftrightarrow> (\<exists>i. s \<le> i \<and> i < e \<and> i < length m \<and> m ! i = 0)"
proof
  assume "0 \<in> set (take (e - s) (drop s m))"
  then obtain k where k: "k < length (take (e - s) (drop s m))" "take (e - s) (drop s m) ! k = 0"
    by (auto simp: in_set_conv_nth)
  then have "s + k < e" "s + k < length m" "m ! (s + k) = 0" by auto
  then show "\<exists>i. s \<le> i \<and> i < e \<and> i < length m \<and> m ! i = 0"
    by (intro exI [of _ "s + k"]) simp
next
  assume "\<exists>i. s \<le> i \<and> i < e \<and> i < length m \<and> m ! i = 0"
  then obtain i where i: "s \<le> i" "i < e" "i < length m" "m ! i = 0" by blast
  then have "i - s < length (take (e - s) (drop s m))" by auto
  moreover have "take (e - s) (drop s m) ! (i - s) = 0" using i by auto
  ultimately show "0 \<in> set (take (e - s) (drop s m))" by (metis nth_mem)
qed

lemma finditer_from_occurrence:
  "(s, e) \<in> set (finditer_from n t pos) \<Longrightarrow> is_occurrence t (n, s, e)"
proof (induction n t pos rule: finditer_from.induct)
  case (1 n t pos)
  show ?case
  proof (cases "length t < pos")
    case True
    with 1(3) show ?thesis by (simp add: finditer_from.simps [of n t pos])
  next
    case False
    note le = this
    show ?thesis
    proof (cases "match_at n t pos")
      case True
      from 1(3) le True have "(s, e) = (pos, pos + length n) \<or>
          (s, e) \<in> set (finditer_from n t (max (pos + 1) (pos + length n)))"
        by (simp add: finditer_from.simps [of n t pos])
      then show ?thesis
      proof
        assume eq: "(s, e) = (pos, pos + length n)"
        from True have "take (length n) (drop pos t) = n" by (simp add: match_at_def)
        then have "length (take (length n) (drop pos t)) = length n" by simp
        then have "length n \<le> length (drop pos t)" by (simp only: length_take)
        with le have "pos + length n \<le> length t" by simp
        with eq True show ?thesis by (simp add: is_occurrence_def)
      next
        assume "(s, e) \<in> set (finditer_from n t (max (pos + 1) (pos + length n)))"
        with 1(1) [OF le True] show ?thesis by simp
      qed
    next
      case False
      with 1(3) le have "(s, e) \<in> set (finditer_from n t (pos + 1))"
        by (simp add: finditer_from.simps [of n t pos])
      with 1(2) [OF le False] show ?thesis by simp
    qed
  qed
qed

lemma visit_span_inv:
  assumes inv: "spans_inv t st" and occ: "is_occurrence t (n, s, e)" and ne: "n \<noteq> []"
  shows "spans_inv t (visit_span n (s, e) st)"
proof -
  obtain acc masked where st: "st = (acc, masked)" by (cases st)
  from inv st have len: "length masked = length t"
    and old: "\<And>a. a \<in> set acc \<Longrightarrow> is_occurrence t a \<and> fst a \<noteq> [] \<and>
           (\<forall>i. fst (snd a) \<le> i \<and> i < snd (snd a) \<longrightarrow> masked ! i = 0)"
    and dis: "sorted_wrt spans_disjoint acc"
    by (auto simp: spans_inv_def)
  from occ ne have se: "s < e" "e \<le> length t" by (auto simp: is_occurrence_def)
  show ?thesis
  proof (cases "0 \<in> set (take (e - s) (drop s masked))")
    case True
    with inv st show ?thesis by (simp add: visit_span_def)
  next
    case False
    then have free: "\<And>i. s \<le> i \<Longrightarrow> i < e \<Longrightarrow> masked ! i \<noteq> 0"
      using se len by (auto simp: slice_has_zero)
    have new_disjoint: "spans_disjoint a (n, s, e)" if a: "a \<in> set acc" for a
    proof -
      obtain n' s' e' where a': "a = (n', s', e')" by (cases a)
      from old [OF a] a' have z: "\<And>i. s' \<le> i \<Longrightarrow> i < e' \<Longrightarrow> masked ! i = 0" by simp
      show ?thesis
      proof (rule ccontr)
        assume "\<not> spans_disjoint a (n, s, e)"
        with a' have ov: "s < e'" "s' < e" by auto
        define i where "i = max s s'"
        from ov se old [OF a] a' have "s \<le> i" "i < e" "s' \<le> i" "i < e'"
          by (auto simp: i_def is_occurrence_def)
        with z free show False by blast
      qed
    qed
    have masked': "\<And>a i. a \<in> set acc \<Longrightarrow> fst (snd a) \<le> i \<and> i < snd (snd a) \<Longrightarrow>
        mask_span s e masked ! i = 0"
    proof -
      fix a i assume a: "a \<in> set acc" and i: "fst (snd a) \<le> i \<and> i < snd (snd a)"
      from old [OF a] have "snd (snd a) \<le> length t" and "masked ! i = 0"
        using i by (auto simp: is_occurrence_def)
      with i len show "mask_span s e masked ! i = 0" by (simp add: nth_mask_span)
    qed
    have new_masked: "\<And>i. s \<le> i \<and> i < e \<Longrightarrow> mask_span s e masked ! i = 0"
      using se len by (simp add: nth_mask_span)
    from False st have v: "visit_span n (s, e) st = (acc @ [(n, s, e)], mask_span s e masked)"
      by (simp add: visit_span_def)
    show ?thesis
      unfolding v spans_inv_def
      using len old dis occ ne new_disjoint masked' new_masked
      by (auto simp: length_mask_span sorted_wrt_append)
  qed
qed

lemma fold_visit_span_inv:
  assumes "spans_inv t st" and "\<forall>occ\<in>set occs. is_occurrence t (n, fst occ, snd occ)" and "n \<noteq> []"
  shows "spans_inv t (fold (visit_span n) occs st)"
  using assms
proof (induction occs arbitrary: st)
  case Nil
  then show ?case by simp
next
  case (Cons occ occs)
  obtain s e where occ: "occ = (s, e)" by (cases occ)
  from Cons.prems occ have "spans_inv t (visit_span n occ st)"
    by (auto intro: visit_span_inv)
  with Cons show ?case by simp
qed

lemma scan_name_spans_inv:
  assumes "spans_inv t st" and "n \<noteq> []"
  shows "spans_inv t (scan_name_spans t n st)"
  unfolding scan_name_spans_def
  using assms
  by (intro fold_visit_span_inv) (auto simp: finditer_def dest: finditer_from_occurrence)

lemma fold_scan_name_spans_inv:
  assumes "spans_inv t st" and "[] \<notin> set names"
  shows "spans_inv t (fold (scan_name_spans t) names st)"
  using assms
proof (induction names arbitrary: st)
  case Nil
  then show ?case by simp
next
  case (Cons n names)
  then have "spans_inv t (scan_name_spans t n st)"
    by (intro scan_name_spans_inv) auto
  with Cons show ?case by simp
qed

lemma visit_match_spans:
  "visit_match n occ (map fst acc, masked) =
     (map fst (fst (visit_span n occ (acc, masked))), snd (visit_span n occ (acc, masked)))"
  by (cases occ) (simp add: visit_match_def visit_span_def)

lemma fold_visit_match_spans:
  "fold (visit_match n) occs (map fst acc, masked) =
     (map fst (fst (fold (visit_span n) occs (acc, masked))),
      snd (fold (visit_span n) occs (acc, masked)))"
proof (induction occs arbitrary: acc masked)
  case Nil
  then show ?case by simp
next
  case (Cons occ occs)
  obtain acc' masked' where v: "visit_span n occ (acc, masked) = (acc', masked')"
    by (cases "visit_span n occ (acc, masked)")
  with visit_match_spans [of n occ acc masked]
  have "visit_match n occ (map fst acc, masked) = (map fst acc', masked')" by simp
  with v Cons.IH [of acc' masked'] show ?case by simp
qed

lemma fold_scan_name_spans:
  "fold (scan_name t) names (map fst acc, masked) =
     (map fst (fst (fold (scan_name_spans t) names (acc, masked))),
      snd (fold (scan_name_spans t) names (acc, masked)))"
proof (induction names arbitrary: acc masked)
  case Nil
  then show ?case by simp
next
  case (Cons n names)
  obtain acc' masked' where v: "scan_name_spans t n (acc, masked) = (acc', masked')"
    by (cases "scan_name_spans t n (acc, masked)")
  then have "scan_name t n (map fst acc, masked) = (map fst acc', masked')"
    using fold_visit_match_spans [of n "finditer n t" acc masked]
    by (simp add: scan_name_def scan_name_spans_def)
  with v Cons.IH [of acc' masked'] show ?case by simp
qed

lemma dedupe_loop_append: "dedupe_loop xs seen ordered = ordered @ dedupe_loop xs seen []"
proof (induction xs arbitrary: seen ordered)
  case Nil
  then show ?case by simp
next
  case (Cons x xs)
  from Cons [of "insert x seen" "ordered @ [x]"] Cons [of "insert x seen" "[x]"] Cons [of seen ordered]
  show ?case by simp
qed

lemma dedupe_loop_Cons:
  "dedupe_loop (x # xs) seen [] =
     (if x \<notin> seen then x # dedupe_loop xs (insert x seen) [] else dedupe_loop xs seen [])"
  using dedupe_loop_append [of xs "insert x seen" "[x]"] by simp

lemma set_dedupe_loop: "set (dedupe_loop xs seen []) = set xs - seen"
  by (induction xs arbitrary: seen) (auto simp: dedupe_loop_Cons simp del: dedupe_loop.simps(2))

lemma distinct_dedupe_loop: "distinct (dedupe_loop xs seen [])"
  by (induction xs arbitrary: seen)
     (auto simp: dedupe_loop_Cons set_dedupe_loop simp del: dedupe_loop.simps(2))

lemma dedupe_loop_replicate_seen:
  "n \<in> seen \<Longrightarrow> dedupe_loop (replicate j n @ rest) seen [] = dedupe_loop rest seen []"
  by (induction j) simp_all

lemma dedupe_loop_blocks_subseq:
  assumes "distinct names" and "length js = length names" and "set names \<inter> seen = {}"
  shows "subseq (dedupe_loop (concat (map2 replicate js names)) seen []) names"
  using assms
proof (induction names arbitrary: js seen)
  case Nil
  then show ?case by simp
next
  case (Cons n names)
  then obtain j js' where js: "js = j # js'" "length js' = length names"
    by (cases js) auto
  let ?rest = "concat (map2 replicate js' names)"
  show ?case
  proof (cases j)
    case 0
    from Cons.prems have "subseq (dedupe_loop ?rest seen []) names"
      using js by (intro Cons.IH) auto
    then have "subseq (dedupe_loop ?rest seen []) (n # names)" by (rule list_emb_Cons)
    with 0 js show ?thesis by simp
  next
    case (Suc k)
    from Cons.prems have n: "n \<notin> seen" by auto
    have "subseq (dedupe_loop ?rest (insert n seen) []) names"
      using Cons.prems js by (intro Cons.IH) auto
    moreover have "dedupe_loop (replicate j n @ ?rest) seen [] = n # dedupe_loop ?rest (insert n seen) []"
      using Suc n
      by (simp add: dedupe_loop_Cons dedupe_loop_replicate_seen del: dedupe_loop.simps(2))
    ultimately show ?thesis using js by simp
  qed
qed

lemma visit_match_pair:
  "visit_match n (s, e) (matched, masked) =
     (if 0 \<in> set (take (e - s) (drop s masked)) then (matched, masked)
      else (matched @ [n], mask_span s e masked))"
  by (simp add: visit_match_def)

lemma fold_visit_match_block:
  "\<exists>j. fst (fold (visit_match n) occs (matched, masked)) = matched @ replicate j n"
proof (induction occs arbitrary: matched masked)
  case Nil
  show ?case by (rule exI [of _ 0]) simp
next
  case (Cons occ occs)
  obtain s e where occ: "occ = (s, e)" by (cases occ)
  show ?case
  proof (cases "0 \<in> set (take (e - s) (drop s masked))")
    case True
    with occ Cons.IH [of matched masked] show ?thesis by (simp add: visit_match_pair)
  next
    case False
    from Cons.IH [of "matched @ [n]" "mask_span s e masked"]
    obtain j where "fst (fold (visit_match n) occs (matched @ [n], mask_span s e masked))
        = (matched @ [n]) @ replicate j n" by blast
    with False occ show ?thesis
      by (intro exI [of _ "Suc j"]) (simp add: visit_match_pair replicate_app_Cons_same)
  qed
qed

lemma fold_scan_name_blocks:
  "\<exists>js. length js = length names \<and>
        fst (fold (scan_name t) names (matched, masked)) = matched @ concat (map2 replicate js names)"
proof (induction names arbitrary: matched masked)
  case Nil
  show ?case by simp
next
  case (Cons n names)
  obtain m' k' where st: "scan_name t n (matched, masked) = (m', k')"
    by (cases "scan_name t n (matched, masked)")
  from fold_visit_match_block [of n "finditer n t" matched masked] st
  obtain j where j: "m' = matched @ replicate j n" by (auto simp: scan_name_def)
  from Cons.IH [of m' k'] obtain js where js: "length js = length names"
    "fst (fold (scan_name t) names (m', k')) = m' @ concat (map2 replicate js names)" by blast
  with st j show ?case
    by (intro exI [of _ "j # js"]) simp
qed

lemma sort_longest_first_descending:
  "sorted_wrt (\<lambda>a b. length b \<le> length a) (sort_longest_first names)"
proof -
  have "sorted (map (\<lambda>n. - int (length n)) (sort_longest_first names))"
    by (simp add: sort_longest_first_def)
  then show ?thesis by (simp add: sorted_map)
qed

lemma extract_image_names_spans:
  "extract_image_names prompt name_set = dedupe_loop (map fst (accepted_spans prompt name_set)) {} []"
  using fold_scan_name_spans [of "normalize_prompt prompt" "sort_longest_first name_set" "[]" "normalize_prompt prompt"]
  by (simp add: extract_image_names_def accepted_spans_def Let_def)

lemma set_listing_collect_names:
  assumes "set_listing (collect_names category_links) name_set"
  shows "distinct name_set" and "[] \<notin> set name_set"
  using assms by (auto simp: set_listing_def collect_names_def)

text \<open>
  C5, as amended. For every prompt and every listing of the candidate set: the result has
  no duplicates; it lists the matched names in the order in which the candidates are
  tried, which is by descending length (it is a subsequence of the sorted candidate list),
  not in the order of their occurrences in the text; the names in it are exactly those of
  the accepted occurrences; every accepted occurrence is a boundary-respecting occurrence
  of its name; and an accepted occurrence never overlaps one accepted before it, so an
  occurrence that overlaps a consumed span is rejected.
\<close>

theorem extract_image_names_contract:
  assumes "set_listing (collect_names category_links) name_set"
  shows "distinct (extract_image_names prompt name_set)
       \<and> subseq (extract_image_names prompt name_set) (sort_longest_first name_set)
       \<and> sorted_wrt (\<lambda>a b. length b \<le> length a) (sort_longest_first name_set)
       \<and> set (extract_image_names prompt name_set) = fst ` set (accepted_spans prompt name_set)
       \<and> (\<forall>a\<in>set (accepted_spans prompt name_set). is_occurrence (normalize_prompt prompt) a)
       \<and> sorted_wrt spans_disjoint (accepted_spans prompt name_set)"
proof (intro conjI)
  let ?t = "normalize_prompt prompt"
  let ?names = "sort_longest_first name_set"
  note assms' = set_listing_collect_names [OF assms]
  show "distinct (extract_image_names prompt name_set)"
    by (simp add: extract_image_names_def Let_def distinct_dedupe_loop)
  from fold_scan_name_blocks [of ?names ?t "[]" ?t]
  obtain js where js: "length js = length ?names"
    "fst (fold (scan_name ?t) ?names ([], ?t)) = concat (map2 replicate js ?names)" by auto
  from assms'(1) have "distinct ?names" by (simp add: sort_longest_first_def)
  from dedupe_loop_blocks_subseq [OF this js(1), of "{}"] js(2)
  show "subseq (extract_image_names prompt name_set) ?names"
    by (simp add: extract_image_names_def Let_def)
  show "sorted_wrt (\<lambda>a b. length b \<le> length a) ?names"
    by (rule sort_longest_first_descending)
  show "set (extract_image_names prompt name_set) = fst ` set (accepted_spans prompt name_set)"
    by (simp add: extract_image_names_spans set_dedupe_loop)
  have "spans_inv ?t ([], ?t)" by (simp add: spans_inv_def)
  moreover from assms'(2) have "[] \<notin> set ?names" by (simp add: sort_longest_first_def)
  ultimately have inv: "spans_inv ?t (fold (scan_name_spans ?t) ?names ([], ?t))"
    by (rule fold_scan_name_spans_inv)
  then show "\<forall>a\<in>set (accepted_spans prompt name_set). is_occurrence ?t a"
    by (auto simp: spans_inv_def accepted_spans_def Let_def split: prod.splits)
  from inv show "sorted_wrt spans_disjoint (accepted_spans prompt name_set)"
    by (auto simp: spans_inv_def accepted_spans_def Let_def split: prod.splits)
qed

lemmas matcher_eval =
  extract_image_names_def accepted_spans_def normalize_prompt_def str_replace_char_def
  sort_longest_first_def scan_name_def scan_name_spans_def finditer_def finditer_from.simps
  match_at_def is_word_char_def visit_match_def visit_span_def mask_span_def is_occurrence_def asc_def

theorem extract_image_names_contract_witness:
  "set_listing (collect_names [[Some (asc '' b ''), Some (asc ''a-b''), None], [Some (asc ''b'')]])
     [asc ''b'', asc ''a-b'']
   \<and> extract_image_names (asc ''b a-b'') [asc ''b'', asc ''a-b''] = [asc ''a-b'', asc ''b'']
   \<and> accepted_spans (asc ''b a-b'') [asc ''b'', asc ''a-b''] = [(asc ''a-b'', 2, 5), (asc ''b'', 0, 1)]
   \<and> sorted_wrt spans_disjoint (accepted_spans (asc ''b a-b'') [asc ''b'', asc ''a-b''])"
proof -
  have l: "set_listing (collect_names [[Some (asc '' b ''), Some (asc ''a-b''), None], [Some (asc ''b'')]])
     [asc ''b'', asc ''a-b'']"
    by (auto simp: set_listing_def collect_names_def py_strip_def is_space_def asc_def)
  have e: "extract_image_names (asc ''b a-b'') [asc ''b'', asc ''a-b''] = [asc ''a-b'', asc ''b'']"
    by (simp add: matcher_eval)
  have a: "accepted_spans (asc ''b a-b'') [asc ''b'', asc ''a-b''] = [(asc ''a-b'', 2, 5), (asc ''b'', 0, 1)]"
    by (simp add: matcher_eval)
  from extract_image_names_contract [OF l, of "asc ''b a-b''"]
  have "sorted_wrt spans_disjoint (accepted_spans (asc ''b a-b'') [asc ''b'', asc ''a-b''])" by blast
  with l e a show ?thesis by blast
qed

text \<open>
  The names \<open>c\<close> and \<open>ab\<close> in the text \<open>c ab\<close>: \<open>c\<close> is accepted at position 0 and \<open>ab\<close> at
  position 2, and the result lists \<open>ab\<close> first, whichever order the set yields.
\<close>

theorem extract_image_names_text_order_counterexample:
  "extract_image_names (asc ''c ab'') [asc ''c'', asc ''ab''] = [asc ''ab'', asc ''c'']
   \<and> accepted_spans (asc ''c ab'') [asc ''c'', asc ''ab''] = [(asc ''ab'', 2, 4), (asc ''c'', 0, 1)]
   \<and> extract_image_names (asc ''c ab'') [asc ''ab'', asc ''c''] = [asc ''ab'', asc ''c'']
   \<and> accepted_spans (asc ''c ab'') [asc ''ab'', asc ''c''] = [(asc ''ab'', 2, 4), (asc ''c'', 0, 1)]"
  by (simp add: matcher_eval)

text \<open>
  The names U+732B and U+5C0F U+732B in the text U+4E00 U+53EA U+5C0F U+732B: the result is
  not the list of the longer name.
\<close>

theorem extract_image_names_kitten_counterexample:
  "extract_image_names [19968, 21482, 23567, 29483] [[29483], [23567, 29483]] \<noteq> [[23567, 29483]]
   \<and> extract_image_names [19968, 21482, 23567, 29483] [[23567, 29483], [29483]] \<noteq> [[23567, 29483]]"
  by (simp add: matcher_eval)

text \<open>
  C4, as amended. On that text the matcher returns the empty list, for either order of the
  set: the occurrence of the longer name follows the ideograph U+53EA, which the lookbehind
  excludes. When a space separates them (U+4E00 U+53EA, space, U+5C0F U+732B) the result is
  exactly the longer name, accepted once at span 3 to 5, and the shorter name is not
  reported.
\<close>

theorem extract_image_names_kitten:
  "extract_image_names [19968, 21482, 23567, 29483] [[29483], [23567, 29483]] = []
   \<and> extract_image_names [19968, 21482, 23567, 29483] [[23567, 29483], [29483]] = []
   \<and> is_word_char 21482
   \<and> extract_image_names [19968, 21482, 32, 23567, 29483] [[29483], [23567, 29483]] = [[23567, 29483]]
   \<and> extract_image_names [19968, 21482, 32, 23567, 29483] [[23567, 29483], [29483]] = [[23567, 29483]]
   \<and> accepted_spans [19968, 21482, 32, 23567, 29483] [[29483], [23567, 29483]] = [([23567, 29483], 3, 5)]"
  by (simp add: matcher_eval)

section \<open>Proofs: download failures\<close>

lemma get_unique_filename_returns:
  assumes fin: "finite {p. path_exists p}"
  shows "\<exists>f. get_unique_filename path_exists number save_path = Some f"
proof (cases "path_exists (os_path_join save_path (number @ asc ''.png''))")
  case False
  then show ?thesis by (simp add: get_unique_filename_def)
next
  case True
  let ?P = "\<lambda>k. \<not> path_exists (os_path_join save_path (suffixed_name number k))"
  from free_counter_exists [OF fin, of 2 save_path number]
  obtain k0 where k0: "2 \<le> k0" "?P k0" by blast
  define k where "k = (LEAST k. 2 \<le> k \<and> ?P k)"
  have k: "2 \<le> k \<and> ?P k"
    unfolding k_def by (rule LeastI [of "\<lambda>k. 2 \<le> k \<and> ?P k" k0]) (simp add: k0)
  have "\<forall>j. 2 \<le> j \<and> j < k \<longrightarrow> path_exists (os_path_join save_path (suffixed_name number j))"
  proof (intro allI impI)
    fix j assume j: "2 \<le> j \<and> j < k"
    then have "\<not> (2 \<le> j \<and> ?P j)" unfolding k_def by (auto dest: not_less_Least)
    with j show "path_exists (os_path_join save_path (suffixed_name number j))" by simp
  qed
  with k have "probe_counter path_exists number save_path 2 = Some (suffixed_name number k)"
    by (intro probe_counter_first_free) auto
  with True show ?thesis by (simp add: get_unique_filename_def)
qed

lemma update_first_split:
  assumes "\<forall>x\<in>set pre. \<not> c x" and "c d"
  shows "update_first c f (pre @ d # post) = pre @ f d # post"
  using assms by (induction pre) simp_all

lemma save_data_url_fails:
  assumes "44 \<notin> set image_url \<or> env_b64decode env \<noteq> Done \<or> env_write env \<noteq> Done"
  shows "\<exists>e evs. save_data_url env image_url file_path filename original_prompt = (Some e, evs)
           \<and> (\<forall>ev\<in>set evs. \<not> is_mark ev) \<and> length (filter is_http_get evs) \<le> 1
           \<and> (io_catchable (env_b64decode env) \<and> io_catchable (env_write env) \<longrightarrow> is_Exception e)"
  using assms
  by (cases "env_b64decode env"; cases "env_write env")
     (auto simp: save_data_url_def is_Exception_def)

lemma fetch_remote_fails:
  assumes "case env_http env of Inl e \<Rightarrow> True | Inr code \<Rightarrow> code \<noteq> 200 \<or> env_write env \<noteq> Done"
  shows "\<exists>e evs. fetch_remote env image_url file_path filename original_prompt = (Some e, evs)
           \<and> (\<forall>ev\<in>set evs. \<not> is_mark ev) \<and> length (filter is_http_get evs) \<le> 1
           \<and> ((case env_http env of Inl e \<Rightarrow> is_Exception e | Inr code \<Rightarrow> True) \<and>
                io_catchable (env_write env) \<longrightarrow> is_Exception e)"
  using assms
  by (cases "env_http env"; cases "env_write env")
     (auto simp: fetch_remote_def is_Exception_def unbound_qtimer_def)

lemma fold_apply_callback_unmarked:
  "\<forall>ev\<in>set evs. \<not> is_mark ev \<Longrightarrow> fold apply_callback evs table = table"
proof (induction evs)
  case Nil
  then show ?case by simp
next
  case (Cons ev evs)
  then show ?case by (cases ev) simp_all
qed

lemma download_failure_events:
  assumes fin: "finite {p. env_path_exists env p}"
    and catchable: "env_catchable env"
    and fails: "download_fails env image_url"
  shows "\<exists>evs msg.
           download_image_async env save_path image_url number original_prompt
             = Some (None, evs @ [MarkFailed original_prompt msg])
           \<and> (\<forall>ev\<in>set evs. \<not> is_mark ev)
           \<and> length (filter is_http_get evs) \<le> 1
           \<and> (\<forall>table. fold apply_callback (evs @ [MarkFailed original_prompt msg]) table
                  = mark_download_failed original_prompt msg table)
           \<and> (\<forall>pre d post.
                 (\<forall>x\<in>set pre. t_prompt x \<noteq> original_prompt) \<and> t_prompt d = original_prompt \<longrightarrow>
                 mark_download_failed original_prompt msg (pre @ d # post)
                   = pre @ d\<lparr>t_status := Some st_failed, t_error_msg := download_failed_prefix @ msg\<rparr> # post)"
proof -
  have "\<exists>e evs. (case env_makedirs env of
           Fails e \<Rightarrow> Some (Some e, [])
         | Done \<Rightarrow>
             (case get_unique_filename (env_path_exists env) number save_path of
                None \<Rightarrow> None
              | Some filename \<Rightarrow>
                  (let file_path = os_path_join save_path filename
                   in if strip_prefix (asc ''data:image/'') image_url \<noteq> None
                      then Some (save_data_url env image_url file_path filename original_prompt)
                      else Some (fetch_remote env image_url file_path filename original_prompt))))
        = Some (Some e, evs) \<and> is_Exception e \<and> (\<forall>ev\<in>set evs. \<not> is_mark ev)
          \<and> length (filter is_http_get evs) \<le> 1"
  proof (cases "env_makedirs env")
    case (Fails e)
    with catchable show ?thesis by (auto simp: env_catchable_def)
  next
    case Done
    from get_unique_filename_returns [OF fin, of number save_path]
    obtain filename where fn: "get_unique_filename (env_path_exists env) number save_path = Some filename"
      by blast
    show ?thesis
    proof (cases "strip_prefix (asc ''data:image/'') image_url \<noteq> None")
      case True
      with fails Done have "44 \<notin> set image_url \<or> env_b64decode env \<noteq> Done \<or> env_write env \<noteq> Done"
        by (simp add: download_fails_def)
      from save_data_url_fails [OF this, of "os_path_join save_path filename" filename original_prompt]
      show ?thesis using Done fn True catchable by (auto simp: env_catchable_def)
    next
      case False
      with fails Done have "case env_http env of Inl e \<Rightarrow> True
          | Inr code \<Rightarrow> code \<noteq> 200 \<or> env_write env \<noteq> Done"
        by (simp add: download_fails_def)
      from fetch_remote_fails [OF this, of image_url "os_path_join save_path filename" filename original_prompt]
      show ?thesis using Done fn False catchable by (auto simp: env_catchable_def)
    qed
  qed
  then obtain e evs where a: "(case env_makedirs env of
           Fails e \<Rightarrow> Some (Some e, [])
         | Done \<Rightarrow>
             (case get_unique_filename (env_path_exists env) number save_path of
                None \<Rightarrow> None
              | Some filename \<Rightarrow>
                  (let file_path = os_path_join save_path filename
                   in if strip_prefix (asc ''data:image/'') image_url \<noteq> None
                      then Some (save_data_url env image_url file_path filename original_prompt)
                      else Some (fetch_remote env image_url file_path filename original_prompt))))
        = Some (Some e, evs)" and e: "is_Exception e" and evs: "\<forall>ev\<in>set evs. \<not> is_mark ev"
        "length (filter is_http_get evs) \<le> 1"
    by blast
  let ?msg = "save_failed_prefix @ exn_str e"
  from a e have "download_image_async env save_path image_url number original_prompt
             = Some (None, evs @ [MarkFailed original_prompt ?msg])"
    unfolding download_image_async_def by simp
  moreover have "\<forall>table. fold apply_callback (evs @ [MarkFailed original_prompt ?msg]) table
                  = mark_download_failed original_prompt ?msg table"
    using evs(1) by (simp add: fold_apply_callback_unmarked)
  moreover have "\<forall>pre d post.
                 (\<forall>x\<in>set pre. t_prompt x \<noteq> original_prompt) \<and> t_prompt d = original_prompt \<longrightarrow>
                 mark_download_failed original_prompt ?msg (pre @ d # post)
                   = pre @ d\<lparr>t_status := Some st_failed, t_error_msg := download_failed_prefix @ ?msg\<rparr> # post"
    by (simp add: mark_download_failed_def update_first_split)
  ultimately show ?thesis using evs by blast
qed

text \<open>
  C9. When the download fails, on a file system with finitely many paths and with failures
  that are exceptions in the sense of \<^verbatim>\<open>except Exception\<close>: the run makes at most one GET
  and never a second attempt, calls \<open>mark_download_failed\<close> exactly once as its last event
  and \<open>mark_download_complete\<close> never; and that call sets the first row with the worker's
  prompt to failed with an error text that starts with the "download failed" prefix,
  leaving every other row as it was. No error text that a worker reports for a failed or
  cancelled generation starts with that prefix.
\<close>

theorem download_failure_marks_failed_once:
  assumes fin: "finite {p. env_path_exists env p}"
    and catchable: "env_catchable env"
    and fails: "download_fails env image_url"
  shows "(\<exists>evs msg.
           download_image_async env save_path image_url number original_prompt
             = Some (None, evs @ [MarkFailed original_prompt msg])
           \<and> (\<forall>ev\<in>set evs. \<not> is_mark ev)
           \<and> length (filter is_http_get evs) \<le> 1
           \<and> (\<forall>table. fold apply_callback (evs @ [MarkFailed original_prompt msg]) table
                  = mark_download_failed original_prompt msg table)
           \<and> (\<forall>pre d post.
                 (\<forall>x\<in>set pre. t_prompt x \<noteq> original_prompt) \<and> t_prompt d = original_prompt \<longrightarrow>
                 mark_download_failed original_prompt msg (pre @ d # post)
                   = pre @ d\<lparr>t_status := Some st_failed, t_error_msg := download_failed_prefix @ msg\<rparr> # post))
       \<and> (\<forall>p num e. \<forall>sig\<in>set (worker_run p num (Inl e)). \<forall>q err.
             sig = ErrorSignal q err \<longrightarrow> strip_prefix download_failed_prefix err = None)"
proof (rule conjI)
  show "\<exists>evs msg.
           download_image_async env save_path image_url number original_prompt
             = Some (None, evs @ [MarkFailed original_prompt msg])
           \<and> (\<forall>ev\<in>set evs. \<not> is_mark ev)
           \<and> length (filter is_http_get evs) \<le> 1
           \<and> (\<forall>table. fold apply_callback (evs @ [MarkFailed original_prompt msg]) table
                  = mark_download_failed original_prompt msg table)
           \<and> (\<forall>pre d post.
                 (\<forall>x\<in>set pre. t_prompt x \<noteq> original_prompt) \<and> t_prompt d = original_prompt \<longrightarrow>
                 mark_download_failed original_prompt msg (pre @ d # post)
                   = pre @ d\<lparr>t_status := Some st_failed, t_error_msg := download_failed_prefix @ msg\<rparr> # post)"
    using fin catchable fails by (rule download_failure_events)
  show "\<forall>p num e. \<forall>sig\<in>set (worker_run p num (Inl e)). \<forall>q err.
             sig = ErrorSignal q err \<longrightarrow> strip_prefix download_failed_prefix err = None"
    by (auto simp: worker_run_def download_failed_prefix_def request_failed_prefix_def
          task_cancelled_text_def)
qed

theorem download_failure_marks_failed_once_witness:
  "finite {p. env_path_exists
      \<lparr>env_makedirs = Done, env_b64decode = Done, env_write = Done, env_http = Inr 404,
       env_path_exists = (\<lambda>p. False)\<rparr> p}
   \<and> env_catchable
      \<lparr>env_makedirs = Done, env_b64decode = Done, env_write = Done, env_http = Inr 404,
       env_path_exists = (\<lambda>p. False)\<rparr>
   \<and> download_fails
      \<lparr>env_makedirs = Done, env_b64decode = Done, env_write = Done, env_http = Inr 404,
       env_path_exists = (\<lambda>p. False)\<rparr> (asc ''http://h/x.png'')
   \<and> download_image_async
      \<lparr>env_makedirs = Done, env_b64decode = Done, env_write = Done, env_http = Inr 404,
       env_path_exists = (\<lambda>p. False)\<rparr> (asc ''out'') (asc ''http://h/x.png'') (asc ''7'') (asc ''a cat'')
     = Some (None, [HttpGet (asc ''http://h/x.png''),
                    MarkFailed (asc ''a cat'') (save_failed_prefix @ exn_str unbound_qtimer)])
   \<and> (\<exists>evs msg. download_image_async
      \<lparr>env_makedirs = Done, env_b64decode = Done, env_write = Done, env_http = Inr 404,
       env_path_exists = (\<lambda>p. False)\<rparr> (asc ''out'') (asc ''http://h/x.png'') (asc ''7'') (asc ''a cat'')
     = Some (None, evs @ [MarkFailed (asc ''a cat'') msg]))"
proof -
  let ?E = "\<lparr>env_makedirs = Done, env_b64decode = Done, env_write = Done, env_http = Inr 404,
       env_path_exists = (\<lambda>p. False)\<rparr>"
  have f: "finite {p. env_path_exists ?E p}" by simp
  have c: "env_catchable ?E" by (simp add: env_catchable_def)
  have d: "download_fails ?E (asc ''http://h/x.png'')"
    by (simp add: download_fails_def asc_def)
  have r: "download_image_async ?E (asc ''out'') (asc ''http://h/x.png'') (asc ''7'') (asc ''a cat'')
     = Some (None, [HttpGet (asc ''http://h/x.png''),
                    MarkFailed (asc ''a cat'') (save_failed_prefix @ exn_str unbound_qtimer)])"
    by (simp add: download_image_async_def get_unique_filename_def fetch_remote_def
          is_Exception_def unbound_qtimer_def asc_def)
  from download_failure_marks_failed_once [OF f c d, of "asc ''out''" "asc ''7''" "asc ''a cat''"]
  have "\<exists>evs msg. download_image_async ?E (asc ''out'') (asc ''http://h/x.png'') (asc ''7'') (asc ''a cat'')
     = Some (None, evs @ [MarkFailed (asc ''a cat'') msg])"
    by blast
  with f c d r show ?thesis by blast
qed

section \<open>Proofs: start\_generation\<close>

lemma w_original_prompt_make_worker:
  "w_original_prompt (make_worker app name_set (i, p, original_prompt)) = original_prompt"
  by (simp add: make_worker_def)

lemma map_original_prompt_jobs:
  assumes "length processed = length prompts"
  shows "map w_original_prompt
           (map (make_worker app name_set) (zip [0..<length processed] (zip processed prompts)))
         = prompts"
proof -
  have "map w_original_prompt (map (make_worker app name_set) jobs) = map (\<lambda>j. snd (snd j)) jobs"
    for jobs
    by (induction jobs) (auto simp: w_original_prompt_make_worker)
  moreover have "map (\<lambda>j. snd (snd j)) (zip [0..<length processed] (zip processed prompts)) = prompts"
  proof -
    have "map (\<lambda>j. snd (snd j)) (zip [0..<length processed] (zip processed prompts))
          = map snd (map snd (zip [0..<length processed] (zip processed prompts)))"
      by simp
    also have "map snd (zip [0..<length processed] (zip processed prompts)) = zip processed prompts"
      using assms by (intro map_snd_zip) simp
    also have "map snd (zip processed prompts) = prompts"
      using assms by (intro map_snd_zip) simp
    finally show ?thesis .
  qed
  ultimately show ?thesis by (simp only:)
qed

lemma start_generation_dispatch:
  "map w_original_prompt (snd (start_generation app name_set)) =
     (if self_api_key app = [] \<or> self_save_path app = [] then []
      else map t_prompt (filter (\<lambda>d. status_or_waiting d = st_waiting) (self_prompt_table_data app)))"
proof -
  let ?prompts = "map t_prompt (filter (\<lambda>d. status_or_waiting d = st_waiting) (self_prompt_table_data app))"
  obtain sc lib where cs: "choose_style app = (sc, lib)" by (cases "choose_style app")
  have "map w_original_prompt
           (map (make_worker app name_set)
              (zip [0..<length (map (process_prompt (self_image_ratio app) sc) ?prompts)]
                 (zip (map (process_prompt (self_image_ratio app) sc) ?prompts) ?prompts)))
         = ?prompts"
    by (rule map_original_prompt_jobs) simp
  then show ?thesis
    by (auto simp: start_generation_def Let_def cs simp del: map_map)
qed

lemma start_generation_frame:
  "self_prompt_table_data (fst (start_generation app name_set)) = self_prompt_table_data app
   \<and> (\<forall>w\<in>set (snd (start_generation app name_set)).
        \<exists>d\<in>set (self_prompt_table_data app).
          status_or_waiting d = st_waiting \<and> t_prompt d = w_original_prompt w)
   \<and> (self_api_key app \<noteq> [] \<and> self_save_path app \<noteq> [] \<longrightarrow>
        map w_original_prompt (snd (start_generation app name_set)) =
        map t_prompt (filter (\<lambda>d. status_or_waiting d = st_waiting) (self_prompt_table_data app)))"
proof (intro conjI ballI impI)
  show "self_prompt_table_data (fst (start_generation app name_set)) = self_prompt_table_data app"
    by (simp add: start_generation_def Let_def split: prod.splits)
next
  fix w assume "w \<in> set (snd (start_generation app name_set))"
  then have "w_original_prompt w \<in> set (map w_original_prompt (snd (start_generation app name_set)))"
    by simp
  then have "w_original_prompt w \<in>
      set (map t_prompt (filter (\<lambda>d. status_or_waiting d = st_waiting) (self_prompt_table_data app)))"
    unfolding start_generation_dispatch by (simp split: if_splits)
  then show "\<exists>d\<in>set (self_prompt_table_data app).
          status_or_waiting d = st_waiting \<and> t_prompt d = w_original_prompt w"
    by auto
next
  assume "self_api_key app \<noteq> [] \<and> self_save_path app \<noteq> []"
  then show "map w_original_prompt (snd (start_generation app name_set)) =
        map t_prompt (filter (\<lambda>d. status_or_waiting d = st_waiting) (self_prompt_table_data app))"
    by (simp add: start_generation_dispatch)
qed

text \<open>
  C8. \<open>start_generation\<close> leaves the task table as it is, so no field of any row is written
  by the re-submission; every worker it creates is for a waiting row; and when key and
  save path are configured the workers are, in order, exactly the rows whose status is
  waiting: a row in any other state is skipped. When no two rows have the same prompt
  text, the row that the callbacks of a created worker address, which they find by its
  prompt text, is a waiting row as well.
\<close>

theorem start_generation_only_waiting:
  "self_prompt_table_data (fst (start_generation app name_set)) = self_prompt_table_data app
   \<and> (\<forall>w\<in>set (snd (start_generation app name_set)).
        \<exists>d\<in>set (self_prompt_table_data app).
          status_or_waiting d = st_waiting \<and> t_prompt d = w_original_prompt w)
   \<and> (self_api_key app \<noteq> [] \<and> self_save_path app \<noteq> [] \<longrightarrow>
        map w_original_prompt (snd (start_generation app name_set)) =
        map t_prompt (filter (\<lambda>d. status_or_waiting d = st_waiting) (self_prompt_table_data app)))
   \<and> (distinct (map t_prompt (self_prompt_table_data app)) \<longrightarrow>
        (\<forall>w\<in>set (snd (start_generation app name_set)). \<forall>d\<in>set (self_prompt_table_data app).
           t_prompt d = w_original_prompt w \<longrightarrow> status_or_waiting d = st_waiting))"
proof -
  note frame = start_generation_frame [of app name_set]
  have "\<forall>w\<in>set (snd (start_generation app name_set)). \<forall>d\<in>set (self_prompt_table_data app).
           t_prompt d = w_original_prompt w \<longrightarrow> status_or_waiting d = st_waiting"
    if dist: "distinct (map t_prompt (self_prompt_table_data app))"
  proof (intro ballI impI)
    fix w d
    assume w: "w \<in> set (snd (start_generation app name_set))"
      and d: "d \<in> set (self_prompt_table_data app)" "t_prompt d = w_original_prompt w"
    from frame w obtain d0 where d0: "d0 \<in> set (self_prompt_table_data app)"
      "status_or_waiting d0 = st_waiting" "t_prompt d0 = w_original_prompt w" by blast
    from dist have "inj_on t_prompt (set (self_prompt_table_data app))"
      by (simp add: distinct_map)
    with d d0 have "d = d0" unfolding inj_on_def by metis
    with d0 show "status_or_waiting d = st_waiting" by simp
  qed
  with frame show ?thesis by blast
qed

theorem start_generation_only_waiting_witness:
  "self_api_key example_app \<noteq> [] \<and> self_save_path example_app \<noteq> []
   \<and> map w_original_prompt (snd (start_generation example_app [])) = [asc ''a dog'']
   \<and> self_prompt_table_data (fst (start_generation example_app [])) = example_table"
proof -
  have g: "self_api_key example_app \<noteq> [] \<and> self_save_path example_app \<noteq> []"
    by (simp add: example_app_def asc_def)
  have f: "map t_prompt (filter (\<lambda>d. status_or_waiting d = st_waiting) (self_prompt_table_data example_app))
        = [asc ''a dog'']"
    by (simp add: example_app_def example_table_def status_or_waiting_def st_waiting_def st_success_def
          st_failed_def st_generating_def st_downloading_def)
  from start_generation_only_waiting [of example_app "[]"] g f
  show ?thesis by (simp add: example_app_def)
qed

section \<open>Proofs: workers under the semaphore\<close>

lemmas sched_eval =
  init_sched_def with_table_def set_phase_def in_phase_def generating_text_def
  start_generation_def choose_style_def py_strip_def make_worker_def
  handle_progress_row_def handle_success_row_def handle_error_row_def
  mark_download_complete_def mark_download_failed_def
  status_or_waiting_def st_waiting_def st_generating_def st_downloading_def st_success_def
  st_failed_def retry_word_def is_generating_def is_occupying_def asc_def Let_def
  generating_count_def occupying_count_def

lemma length_filter_update:
  "i < length xs \<Longrightarrow>
     length (filter P (xs[i := y])) + (if P (xs ! i) then 1 else 0)
       = length (filter P xs) + (if P y then 1 else 0)"
proof (induction xs arbitrary: i)
  case Nil
  then show ?case by simp
next
  case (Cons x xs)
  show ?case
  proof (cases i)
    case 0
    then show ?thesis by simp
  next
    case (Suc k)
    with Cons.prems have "k < length xs" by simp
    from Cons.IH [OF this] Suc show ?thesis by simp
  qed
qed

lemma length_filter_imp:
  "(\<And>x. P x \<Longrightarrow> Q x) \<Longrightarrow> length (filter P xs) \<le> length (filter Q xs)"
  by (induction xs) auto

lemma first_only_no_generating:
  "\<forall>d\<in>set table. \<not> is_generating d \<Longrightarrow> first_only seen table"
  by (induction table arbitrary: seen) auto

lemma first_only_generating_unseen:
  "first_only seen table \<Longrightarrow> x \<in> set table \<Longrightarrow> is_generating x \<Longrightarrow> t_prompt x \<notin> seen"
  by (induction table arbitrary: seen) auto

lemma first_only_distinct:
  "first_only seen table \<Longrightarrow>
     distinct (map t_prompt (filter is_generating table)) \<and>
     set (map t_prompt (filter is_generating table)) \<inter> seen = {}"
proof (induction table arbitrary: seen)
  case Nil
  then show ?case by simp
next
  case (Cons d ds)
  from Cons.prems have "first_only (insert (t_prompt d) seen) ds" by simp
  from Cons.IH [OF this] Cons.prems show ?case by auto
qed

lemma first_only_update:
  assumes "first_only seen table" and "\<And>d. t_prompt (f d) = t_prompt d"
    and "p \<notin> seen \<or> (\<forall>d. \<not> is_generating (f d))"
  shows "first_only seen (update_first (\<lambda>d. t_prompt d = p) f table)"
  using assms(1,3)
proof (induction table arbitrary: seen)
  case Nil
  then show ?case by simp
next
  case (Cons d ds)
  show ?case
  proof (cases "t_prompt d = p")
    case True
    with Cons.prems assms(2) show ?thesis by auto
  next
    case False
    from Cons.prems have "first_only (insert (t_prompt d) seen) ds" by simp
    moreover from Cons.prems(2) False
    have "p \<notin> insert (t_prompt d) seen \<or> (\<forall>d. \<not> is_generating (f d))" by auto
    ultimately have "first_only (insert (t_prompt d) seen) (update_first (\<lambda>d. t_prompt d = p) f ds)"
      by (rule Cons.IH)
    with False Cons.prems show ?thesis by simp
  qed
qed

lemma update_first_member:
  "x \<in> set (update_first c f table) \<Longrightarrow> x \<in> set table \<or> (\<exists>d\<in>set table. c d \<and> x = f d)"
  by (induction table) (auto split: if_splits)

lemma update_first_generating_other:
  assumes "first_only seen table" and "\<And>d. \<not> is_generating (f d)"
    and "x \<in> set (update_first (\<lambda>d. t_prompt d = p) f table)" and "is_generating x"
  shows "t_prompt x \<noteq> p \<and> x \<in> set table"
  using assms(1,3)
proof (induction table arbitrary: seen)
  case Nil
  then show ?case by simp
next
  case (Cons d ds)
  show ?case
  proof (cases "t_prompt d = p")
    case True
    with Cons.prems(2) assms(2,4) have x: "x \<in> set ds" by auto
    from Cons.prems(1) have "first_only (insert (t_prompt d) seen) ds" by simp
    from first_only_generating_unseen [OF this x assms(4)] True x show ?thesis by auto
  next
    case False
    with Cons.prems(2) have "x = d \<or> x \<in> set (update_first (\<lambda>d. t_prompt d = p) f ds)" by simp
    then show ?thesis
    proof
      assume "x = d"
      with False show ?thesis by simp
    next
      assume x: "x \<in> set (update_first (\<lambda>d. t_prompt d = p) f ds)"
      from Cons.prems(1) have "first_only (insert (t_prompt d) seen) ds" by simp
      from Cons.IH [OF this x] show ?thesis by simp
    qed
  qed
qed

lemma generating_rows_bounded:
  assumes "first_only {} table"
    and "\<forall>d\<in>set table. is_generating d \<longrightarrow> running_prompt ws (t_prompt d)"
  shows "length (filter is_generating table) \<le> length (filter (\<lambda>w. snd w = Running) ws)"
proof -
  let ?G = "map t_prompt (filter is_generating table)"
  let ?R = "map fst (filter (\<lambda>w. snd w = Running) ws)"
  from first_only_distinct [OF assms(1)] have "distinct ?G" by simp
  then have "card (set ?G) = length ?G" by (rule distinct_card)
  then have "length ?G = card (set ?G)" by (rule sym)
  also have "set ?G \<subseteq> set ?R"
  proof
    fix q assume "q \<in> set ?G"
    then obtain d where "d \<in> set table" "is_generating d" "t_prompt d = q" by auto
    with assms(2) have "running_prompt ws q" by auto
    then obtain j where "j < length ws" "ws ! j = (q, Running)" by (auto simp: running_prompt_def)
    then have "(q, Running) \<in> set ws" by (metis nth_mem)
    then show "q \<in> set ?R" by force
  qed
  then have "card (set ?G) \<le> card (set ?R)" by (intro card_mono) simp_all
  also have "\<dots> \<le> length ?R" by (rule card_length)
  finally have "length ?G \<le> length ?R" .
  then show ?thesis by (simp only: length_map)
qed

lemma running_prompt_to_running:
  assumes "i < length ws"
  shows "running_prompt (ws[i := (fst (ws ! i), Running)]) (fst (ws ! i))"
    and "running_prompt ws q \<Longrightarrow> running_prompt (ws[i := (fst (ws ! i), Running)]) q"
proof -
  show "running_prompt (ws[i := (fst (ws ! i), Running)]) (fst (ws ! i))"
    using assms unfolding running_prompt_def by (intro exI [of _ i]) simp
  assume "running_prompt ws q"
  then obtain j where j: "j < length ws" "ws ! j = (q, Running)" by (auto simp: running_prompt_def)
  show "running_prompt (ws[i := (fst (ws ! i), Running)]) q"
    unfolding running_prompt_def
  proof (intro exI [of _ j] conjI)
    show "j < length (ws[i := (fst (ws ! i), Running)])" using j by simp
    show "ws[i := (fst (ws ! i), Running)] ! j = (q, Running)"
      using j assms by (cases "j = i") simp_all
  qed
qed

lemma running_prompt_other:
  assumes "running_prompt ws q" and "q \<noteq> fst (ws ! i) \<or> snd (ws ! i) \<noteq> Running"
  shows "running_prompt (ws[i := y]) q"
proof -
  from assms(1) obtain j where j: "j < length ws" "ws ! j = (q, Running)"
    by (auto simp: running_prompt_def)
  with assms(2) have "j \<noteq> i" by auto
  with j show ?thesis unfolding running_prompt_def by (intro exI [of _ j]) simp
qed

lemma running_prompt_append: "running_prompt ws q \<Longrightarrow> running_prompt (ws @ new) q"
proof -
  assume "running_prompt ws q"
  then obtain j where j: "j < length ws" "ws ! j = (q, Running)" by (auto simp: running_prompt_def)
  then show ?thesis unfolding running_prompt_def by (intro exI [of _ j]) (simp add: nth_append)
qed

lemma table_inv_quiet:
  assumes fo: "first_only {} table"
    and rp: "\<forall>d\<in>set table. is_generating d \<longrightarrow> running_prompt ws (t_prompt d)"
    and f: "\<And>d. t_prompt (f d) = t_prompt d" "\<And>d. \<not> is_generating (f d)"
    and ws: "\<And>q. q \<noteq> p \<Longrightarrow> running_prompt ws q \<Longrightarrow> running_prompt ws' q"
  shows "first_only {} (update_first (\<lambda>d. t_prompt d = p) f table)"
    and "\<forall>d\<in>set (update_first (\<lambda>d. t_prompt d = p) f table).
           is_generating d \<longrightarrow> running_prompt ws' (t_prompt d)"
proof -
  show "first_only {} (update_first (\<lambda>d. t_prompt d = p) f table)"
    using fo f(1) by (rule first_only_update) simp
  show "\<forall>d\<in>set (update_first (\<lambda>d. t_prompt d = p) f table).
           is_generating d \<longrightarrow> running_prompt ws' (t_prompt d)"
  proof (intro ballI impI)
    fix d assume d: "d \<in> set (update_first (\<lambda>d. t_prompt d = p) f table)" "is_generating d"
    from update_first_generating_other [OF fo f(2) d] have "t_prompt d \<noteq> p" "d \<in> set table"
      by simp_all
    with rp d(2) ws show "running_prompt ws' (t_prompt d)" by blast
  qed
qed

lemma table_inv_progress:
  assumes fo: "first_only {} table"
    and rp: "\<forall>d\<in>set table. is_generating d \<longrightarrow> running_prompt ws (t_prompt d)"
    and f: "\<And>d. t_prompt (f d) = t_prompt d"
    and ws: "\<And>q. running_prompt ws q \<Longrightarrow> running_prompt ws' q" "running_prompt ws' p"
  shows "first_only {} (update_first (\<lambda>d. t_prompt d = p) f table)"
    and "\<forall>d\<in>set (update_first (\<lambda>d. t_prompt d = p) f table).
           is_generating d \<longrightarrow> running_prompt ws' (t_prompt d)"
proof -
  show "first_only {} (update_first (\<lambda>d. t_prompt d = p) f table)"
    using fo f by (rule first_only_update) simp
  show "\<forall>d\<in>set (update_first (\<lambda>d. t_prompt d = p) f table).
           is_generating d \<longrightarrow> running_prompt ws' (t_prompt d)"
  proof (intro ballI impI)
    fix d assume d: "d \<in> set (update_first (\<lambda>d. t_prompt d = p) f table)" "is_generating d"
    from update_first_member [OF d(1)]
    show "running_prompt ws' (t_prompt d)"
    proof
      assume "d \<in> set table"
      with rp d(2) ws(1) show ?thesis by blast
    next
      assume "\<exists>d'\<in>set table. t_prompt d' = p \<and> d = f d'"
      with f ws(2) show ?thesis by auto
    qed
  qed
qed

lemma not_generating_status:
  "\<not> is_generating (d\<lparr>t_status := Some st_downloading, t_image_url := u, t_error_msg := e\<rparr>)"
  "\<not> is_generating (d\<lparr>t_status := Some st_failed, t_image_url := u, t_error_msg := e\<rparr>)"
  "\<not> is_generating (d\<lparr>t_status := Some st_failed, t_error_msg := e\<rparr>)"
  "\<not> is_generating (d\<lparr>t_status := Some st_success\<rparr>)"
  "\<not> is_generating (d\<lparr>t_status := Some st_success, t_actual_filename := a\<rparr>)"
  by (simp_all add: is_generating_def status_or_waiting_def st_downloading_def st_failed_def
        st_success_def st_generating_def retry_word_def)

lemma start_generation_table:
  "self_prompt_table_data (fst (start_generation app name_set)) = self_prompt_table_data app"
  by (simp add: start_generation_def Let_def split: prod.splits)

lemma with_table_simps:
  "s_workers (with_table f s) = s_workers s"
  "s_permits (with_table f s) = s_permits s"
  "s_downloads (with_table f s) = s_downloads s"
  "self_prompt_table_data (s_app (with_table f s)) = f (self_prompt_table_data (s_app s))"
  "self_save_path (s_app (with_table f s)) = self_save_path (s_app s)"
  by (simp_all add: with_table_def)

lemma set_phase_simps:
  "s_workers (set_phase i ph s) = (s_workers s)[i := (fst (s_workers s ! i), ph)]"
  "s_permits (set_phase i ph s) = s_permits s"
  "s_app (set_phase i ph s) = s_app s"
  by (simp_all add: set_phase_def)

lemma permit_holders_update:
  assumes "i < length ws"
  shows "permit_holders (ws[i := (p, ph)]) + (if holds_permit (snd (ws ! i)) then 1 else 0)
           = permit_holders ws + (if holds_permit ph then 1 else 0)"
  using length_filter_update [OF assms, of "\<lambda>w. holds_permit (snd w)" "(p, ph)"]
  by (simp add: permit_holders_def)

lemma permit_holders_append_queued:
  "permit_holders (ws @ map (\<lambda>w. (g w, Queued)) new) = permit_holders ws"
  by (simp add: permit_holders_def o_def)

lemma sched_inv_alt:
  "sched_inv K s \<longleftrightarrow>
     s_permits s + permit_holders (s_workers s) = K \<and>
     first_only {} (self_prompt_table_data (s_app s)) \<and>
     (\<forall>d\<in>set (self_prompt_table_data (s_app s)).
        is_generating d \<longrightarrow> running_prompt (s_workers s) (t_prompt d))"
  by (simp add: sched_inv_def permit_holders_def)

lemma sched_step_inv:
  assumes inv: "sched_inv K s" and step: "sched_step s ev = Some s'"
  shows "sched_inv K s'"
proof -
  let ?ws = "s_workers s"
  let ?tb = "self_prompt_table_data (s_app s)"
  from inv have cnt: "s_permits s + permit_holders ?ws = K"
    and fo: "first_only {} ?tb"
    and rp: "\<forall>d\<in>set ?tb. is_generating d \<longrightarrow> running_prompt ?ws (t_prompt d)"
    by (simp_all add: sched_inv_alt)
  show ?thesis
  proof (cases ev)
    case (Submit name_set)
    obtain app' new where sg: "start_generation (s_app s) name_set = (app', new)"
      by (cases "start_generation (s_app s) name_set")
    with start_generation_table [of "s_app s" name_set]
    have tb: "self_prompt_table_data app' = ?tb" by simp
    from step Submit sg have s': "s' = s\<lparr>s_app := app',
        s_workers := ?ws @ map (\<lambda>w. (w_original_prompt w, Queued)) new\<rparr>" by simp
    show ?thesis
      unfolding sched_inv_alt s'
      using cnt fo rp tb by (auto simp: permit_holders_append_queued intro: running_prompt_append)
  next
    case (Acquire i)
    with step have g: "i < length ?ws" "snd (?ws ! i) = Queued" "0 < s_permits s"
      and s': "s' = set_phase i Acquired (s\<lparr>s_permits := s_permits s - 1\<rparr>)"
      by (auto simp: in_phase_def split: if_splits)
    from permit_holders_update [OF g(1), of "fst (?ws ! i)" Acquired] g(2)
    have "permit_holders (?ws[i := (fst (?ws ! i), Acquired)]) = permit_holders ?ws + 1" by simp
    moreover have "\<And>q. running_prompt ?ws q \<Longrightarrow> running_prompt (?ws[i := (fst (?ws ! i), Acquired)]) q"
      using g(2) by (intro running_prompt_other) auto
    ultimately show ?thesis
      unfolding sched_inv_alt s'
      using cnt fo rp g(3) by (auto simp: set_phase_simps)
  next
    case (EmitProgress i)
    let ?p = "fst (?ws ! i)"
    let ?ws' = "?ws[i := (?p, Running)]"
    from EmitProgress step have g: "i < length ?ws" "snd (?ws ! i) = Acquired"
      and s': "s' = set_phase i Running (with_table (handle_progress_row generating_text ?p) s)"
      by (auto simp: in_phase_def split: if_splits)
    from permit_holders_update [OF g(1), of ?p Running] g(2)
    have c: "permit_holders ?ws' = permit_holders ?ws" by simp
    have t: "first_only {} (handle_progress_row generating_text ?p ?tb)"
      "\<forall>d\<in>set (handle_progress_row generating_text ?p ?tb).
           is_generating d \<longrightarrow> running_prompt ?ws' (t_prompt d)"
      unfolding handle_progress_row_def
      using running_prompt_to_running [OF g(1)]
      by (intro table_inv_progress [OF fo rp]; simp)+
    show ?thesis
      unfolding sched_inv_alt s'
      using cnt c t by (simp add: set_phase_simps with_table_simps)
  next
    case (EmitFinished i url)
    let ?p = "fst (?ws ! i)"
    let ?ws' = "?ws[i := (?p, Finishing)]"
    let ?t1 = "handle_success_row url ?p ?tb"
    from EmitFinished step have g: "i < length ?ws" "snd (?ws ! i) = Running"
      by (auto simp: in_phase_def split: if_splits)
    from permit_holders_update [OF g(1), of ?p Finishing] g(2)
    have c: "permit_holders ?ws' = permit_holders ?ws" by simp
    have other: "\<And>q. q \<noteq> ?p \<Longrightarrow> running_prompt ?ws q \<Longrightarrow> running_prompt ?ws' q"
      by (intro running_prompt_other) auto
    have t1: "first_only {} ?t1"
      "\<forall>d\<in>set ?t1. is_generating d \<longrightarrow> running_prompt ?ws' (t_prompt d)"
      unfolding handle_success_row_def
      using other by (intro table_inv_quiet [OF fo rp]; simp add: not_generating_status)+
    have t2: "first_only {} (mark_download_complete ?p None ?t1)"
      "\<forall>d\<in>set (mark_download_complete ?p None ?t1). is_generating d \<longrightarrow> running_prompt ?ws' (t_prompt d)"
      unfolding mark_download_complete_def
      by (intro table_inv_quiet [OF t1]; simp add: not_generating_status)+
    show ?thesis
    proof (cases "self_save_path (s_app s) \<noteq> []")
      case True
      with EmitFinished step g have s': "s' = set_phase i Finishing
          ((with_table (handle_success_row url ?p) s)
             \<lparr>s_downloads := s_downloads (with_table (handle_success_row url ?p) s) @ [(?p, True)]\<rparr>)"
        by (simp add: in_phase_def Let_def)
      show ?thesis
        unfolding sched_inv_alt s'
        using cnt c t1 by (simp add: set_phase_simps with_table_simps)
    next
      case False
      with EmitFinished step g have s': "s' = set_phase i Finishing
          (with_table (mark_download_complete ?p None) (with_table (handle_success_row url ?p) s))"
        by (simp add: in_phase_def Let_def)
      show ?thesis
        unfolding sched_inv_alt s'
        using cnt c t2 by (simp add: set_phase_simps with_table_simps)
    qed
  next
    case (EmitError i err)
    let ?p = "fst (?ws ! i)"
    let ?ws' = "?ws[i := (?p, Finishing)]"
    from EmitError step have g: "i < length ?ws" "snd (?ws ! i) = Running"
      and s': "s' = set_phase i Finishing (with_table (handle_error_row err ?p) s)"
      by (auto simp: in_phase_def split: if_splits)
    from permit_holders_update [OF g(1), of ?p Finishing] g(2)
    have c: "permit_holders ?ws' = permit_holders ?ws" by simp
    have other: "\<And>q. q \<noteq> ?p \<Longrightarrow> running_prompt ?ws q \<Longrightarrow> running_prompt ?ws' q"
      by (intro running_prompt_other) auto
    have t: "first_only {} (handle_error_row err ?p ?tb)"
      "\<forall>d\<in>set (handle_error_row err ?p ?tb). is_generating d \<longrightarrow> running_prompt ?ws' (t_prompt d)"
      unfolding handle_error_row_def
      using other by (intro table_inv_quiet [OF fo rp]; simp add: not_generating_status)+
    show ?thesis
      unfolding sched_inv_alt s'
      using cnt c t by (simp add: set_phase_simps with_table_simps)
  next
    case (Release i)
    with step have g: "i < length ?ws" "snd (?ws ! i) = Finishing"
      and s': "s' = set_phase i Finished (s\<lparr>s_permits := s_permits s + 1\<rparr>)"
      by (auto simp: in_phase_def split: if_splits)
    from permit_holders_update [OF g(1), of "fst (?ws ! i)" Finished] g(2)
    have "permit_holders (?ws[i := (fst (?ws ! i), Finished)]) + 1 = permit_holders ?ws" by simp
    moreover have "\<And>q. running_prompt ?ws q \<Longrightarrow> running_prompt (?ws[i := (fst (?ws ! i), Finished)]) q"
      using g(2) by (intro running_prompt_other) auto
    ultimately show ?thesis
      unfolding sched_inv_alt s'
      using cnt fo rp by (auto simp: set_phase_simps)
  next
    case (DownloadOk j filename)
    let ?p = "fst (s_downloads s ! j)"
    from DownloadOk step have s': "s' = (with_table (mark_download_complete ?p (Some filename)) s)
                   \<lparr>s_downloads := (s_downloads s)[j := (?p, False)]\<rparr>"
      by (auto split: if_splits)
    have t: "first_only {} (mark_download_complete ?p (Some filename) ?tb)"
      "\<forall>d\<in>set (mark_download_complete ?p (Some filename) ?tb).
          is_generating d \<longrightarrow> running_prompt ?ws (t_prompt d)"
      unfolding mark_download_complete_def
      by (intro table_inv_quiet [OF fo rp]; simp add: not_generating_status)+
    show ?thesis
      unfolding sched_inv_alt s'
      using cnt t by (simp add: with_table_simps)
  next
    case (DownloadFail j err)
    let ?p = "fst (s_downloads s ! j)"
    from DownloadFail step have s': "s' = (with_table (mark_download_failed ?p err) s)
                   \<lparr>s_downloads := (s_downloads s)[j := (?p, False)]\<rparr>"
      by (auto split: if_splits)
    have t: "first_only {} (mark_download_failed ?p err ?tb)"
      "\<forall>d\<in>set (mark_download_failed ?p err ?tb).
          is_generating d \<longrightarrow> running_prompt ?ws (t_prompt d)"
      unfolding mark_download_failed_def
      by (intro table_inv_quiet [OF fo rp]; simp add: not_generating_status)+
    show ?thesis
      unfolding sched_inv_alt s'
      using cnt t by (simp add: with_table_simps)
  qed
qed

lemma sched_run_inv:
  "sched_inv K s \<Longrightarrow> sched_run s evs = Some s' \<Longrightarrow> sched_inv K s'"
proof (induction evs arbitrary: s)
  case Nil
  then show ?case by simp
next
  case (Cons ev evs)
  from Cons.prems(2) obtain s1 where s1: "sched_step s ev = Some s1" "sched_run s1 evs = Some s'"
    by (auto split: option.splits)
  from Cons.prems(1) s1(1) have "sched_inv K s1" by (rule sched_step_inv)
  then show ?case using s1(2) by (rule Cons.IH)
qed

text \<open>
  C1, as amended. From a table without generating rows and a semaphore of \<open>K\<close> permits, in
  every state that the scheduler reaches at most \<open>K\<close> workers hold a permit and at most
  \<open>K\<close> rows are in the states generating or retrying: every generation call runs under
  the semaphore. Rows in the state downloading are not counted, because a download runs
  after the permit has been released.
\<close>

theorem semaphore_bounds_generating:
  assumes "\<forall>d\<in>set (self_prompt_table_data app). \<not> is_generating d"
    and "sched_run (init_sched app K) evs = Some s"
  shows "length (filter (\<lambda>w. holds_permit (snd w)) (s_workers s)) \<le> K
       \<and> length (filter is_generating (self_prompt_table_data (s_app s))) \<le> K"
proof -
  have "sched_inv K (init_sched app K)"
    using assms(1) by (simp add: sched_inv_def init_sched_def first_only_no_generating)
  from sched_run_inv [OF this assms(2)] have inv: "sched_inv K s" .
  then have g: "length (filter (\<lambda>w. holds_permit (snd w)) (s_workers s)) \<le> K"
    by (simp add: sched_inv_def)
  from inv have "length (filter is_generating (self_prompt_table_data (s_app s)))
      \<le> length (filter (\<lambda>w. snd w = Running) (s_workers s))"
    by (intro generating_rows_bounded) (simp_all add: sched_inv_def)
  also have "\<dots> \<le> length (filter (\<lambda>w. holds_permit (snd w)) (s_workers s))"
    by (rule length_filter_imp) simp
  finally show ?thesis using g by simp
qed

theorem semaphore_bounds_generating_witness:
  "\<exists>s. sched_run (init_sched two_waiting 1)
          [Submit [], Acquire 0, EmitProgress 0, EmitFinished 0 (asc ''http://h/1.png''), Release 0,
           Acquire 1, EmitProgress 1] = Some s
       \<and> generating_count s = 1 \<and> s_permits s = 0
       \<and> length (filter (\<lambda>w. holds_permit (snd w)) (s_workers s)) \<le> 1"
proof -
  let ?evs = "[Submit [], Acquire 0, EmitProgress 0, EmitFinished 0 (asc ''http://h/1.png''), Release 0,
           Acquire 1, EmitProgress 1]"
  have h: "\<forall>d\<in>set (self_prompt_table_data two_waiting). \<not> is_generating d"
    by (simp add: sched_eval two_waiting_def)
  have "\<exists>s. sched_run (init_sched two_waiting 1) ?evs = Some s \<and> generating_count s = 1 \<and> s_permits s = 0"
    by (simp add: sched_eval two_waiting_def)
  then obtain s where s: "sched_run (init_sched two_waiting 1) ?evs = Some s"
    "generating_count s = 1" "s_permits s = 0" by blast
  from semaphore_bounds_generating [OF h s(1)] s show ?thesis by blast
qed

text \<open>
  One permit and two waiting rows: the first worker finishes its generation and releases
  the permit while its row is downloading, the second worker then starts generating. Two
  rows are in the counted states, and the semaphore has no permit left.
\<close>

theorem semaphore_downloading_counterexample:
  "map_option occupying_count
     (sched_run (init_sched two_waiting 1)
        [Submit [], Acquire 0, EmitProgress 0, EmitFinished 0 (asc ''http://h/1.png''), Release 0,
         Acquire 1, EmitProgress 1])
   = Some 2
   \<and> filter is_occupying (self_prompt_table_data two_waiting) = []"
  by (simp add: sched_eval two_waiting_def)

section \<open>Proofs: HistoryStore\<close>

lemma catchable_Inr [simp]: "catchable (Inr x)"
  by (simp add: catchable_def)

lemma catchable_Inl [simp]: "catchable (Inl e) \<longleftrightarrow> is_Exception e"
  by (simp add: catchable_def)

lemma catchable_bind_r:
  "catchable r \<Longrightarrow> (\<And>x. catchable (f x)) \<Longrightarrow> catchable (bind_r r f)"
  by (cases r) (simp_all add: bind_r_def)

lemma catchable_map_r: "(\<And>x. catchable (f x)) \<Longrightarrow> catchable (map_r f xs)"
  by (induction xs) (auto intro!: catchable_bind_r)

lemma catchable_py_get: "catchable (py_get x k d)"
  by (cases x) (simp_all add: is_Exception_def)

lemma catchable_py_len: "catchable (py_len x)"
  by (cases x) (simp_all add: is_Exception_def)

lemma catchable_py_iter: "catchable (py_iter x)"
  by (cases x) (simp_all add: is_Exception_def)

lemma catchable_count_status: "catchable (count_status st prompt_data)"
  unfolding count_status_def
  by (intro catchable_bind_r catchable_map_r catchable_py_iter catchable_py_get catchable_Inr)

lemma catchable_prompt_texts: "catchable (prompt_texts prompt_data)"
  unfolding prompt_texts_def
  by (intro catchable_bind_r catchable_map_r catchable_py_iter catchable_py_get catchable_Inr)

lemma catchable_config_subset: "catchable (config_subset config_data)"
  unfolding config_subset_def
  by (intro catchable_bind_r catchable_py_get catchable_Inr)

lemma catchable_make_history_record: "catchable (make_history_record clk prompt_data config_data)"
  unfolding make_history_record_def
  by (intro catchable_bind_r catchable_py_len catchable_count_status catchable_config_subset
        catchable_Inr)

lemma catchable_content_for_hash: "catchable (content_for_hash config prompts_value)"
  unfolding content_for_hash_def
  by (intro catchable_bind_r catchable_prompt_texts catchable_Inr)

lemma examine_existing_abort:
  assumes "\<And>c. catchable (digest c)" and "examine_existing digest h c = Abort e"
  shows "is_Exception e"
proof (cases c)
  case (Doc existing_data)
  let ?r = "bind_r (py_get existing_data (asc ''config'') (JObj [])) (\<lambda>config.
                bind_r (py_get existing_data (asc ''prompts'') (JArr [])) (\<lambda>prompts_value.
                bind_r (content_for_hash config prompts_value) digest))"
  have "catchable ?r"
    by (intro catchable_bind_r catchable_py_get catchable_content_for_hash assms(1))
  moreover from assms(2) Doc have "?r = Inl e"
    by (auto simp: examine_existing_def split: sum.splits if_splits)
  ultimately show ?thesis by simp
next
  case NotUtf8
  with assms(2) show ?thesis by (auto simp: examine_existing_def is_Exception_def)
qed (use assms(2) in \<open>simp_all add: examine_existing_def\<close>)

lemma catchable_find_duplicate:
  assumes "\<And>c. catchable (digest c)"
  shows "catchable (find_duplicate digest h files)"
proof (induction files)
  case Nil
  show ?case by simp
next
  case (Cons f files)
  obtain p c where f: "f = (p, c)" by (cases f)
  show ?case
  proof (cases "examine_existing digest h c")
    case (Abort e)
    with examine_existing_abort [OF assms this] f show ?thesis by simp
  qed (use Cons f in simp_all)
qed

lemma write_json_error: "fst (write_json p v fs) = Some e \<Longrightarrow> is_Exception e"
  by (auto simp: write_json_def is_Exception_def split: if_splits)

lemma map_of_put_file: "map_of (put_file p c files) p = Some c"
  by (induction files) auto

lemma write_json_stored:
  "fst (write_json p v fs) = None \<Longrightarrow> map_of (hf_files (snd (write_json p v fs))) p = Some (Doc v)"
  by (auto simp: write_json_def map_of_put_file split: if_splits)

lemma write_new_result:
  "catchable (fst (write_new clk history_record app_path filename fs))"
  "fst (write_new clk history_record app_path filename fs) = Inr p \<Longrightarrow>
     map_of (hf_files (snd (write_new clk history_record app_path filename fs))) p = Some (Doc history_record)"
proof -
  let ?fp = "os_path_join (history_path app_path) (choose_filename clk filename)"
  obtain r fs' where w: "write_json ?fp history_record fs = (r, fs')"
    by (cases "write_json ?fp history_record fs")
  show "catchable (fst (write_new clk history_record app_path filename fs))"
    using w write_json_error [of ?fp history_record fs]
    by (cases r) (simp_all add: write_new_def Let_def)
  assume "fst (write_new clk history_record app_path filename fs) = Inr p"
  with w have "r = None" "p = ?fp" by (cases r; simp add: write_new_def Let_def)+
  with w write_json_stored [of ?fp history_record fs]
  show "map_of (hf_files (snd (write_new clk history_record app_path filename fs))) p = Some (Doc history_record)"
    by (simp add: write_new_def Let_def)
qed

lemma update_duplicate_error:
  "fst (update_duplicate history_record prompt_data duplicate_file fs) = Some e \<Longrightarrow> is_Exception e"
  by (auto simp: update_duplicate_def refresh_record_def is_Exception_def
           dest: write_json_error split: option.splits fcontent.splits sum.splits json.splits)

lemma update_duplicate_stored:
  "fst (update_duplicate history_record prompt_data duplicate_file fs) = None \<Longrightarrow>
     \<exists>v. map_of (hf_files (snd (update_duplicate history_record prompt_data duplicate_file fs)))
            duplicate_file = Some (Doc v)"
  by (auto simp: update_duplicate_def dest: write_json_stored
           split: option.splits fcontent.splits sum.splits)

lemma save_history_body_result:
  assumes dg: "\<And>c. catchable (digest c)"
  shows "catchable (fst (save_history_body digest clk prompt_data config_data app_path filename fs0))
       \<and> (\<forall>p. fst (save_history_body digest clk prompt_data config_data app_path filename fs0) = Inr p \<longrightarrow>
              (\<exists>v. map_of (hf_files (snd (save_history_body digest clk prompt_data config_data
                                            app_path filename fs0))) p = Some (Doc v)))"
proof (cases "ensure_history_directory fs0")
  case (Pair r fs)
  show ?thesis
  proof (cases r)
    case (Some e)
    with Pair have "is_Exception e"
      by (auto simp: ensure_history_directory_def is_Exception_def split: if_splits)
    with Pair Some show ?thesis by (simp add: save_history_body_def)
  next
    case None
    let ?chain = "bind_r (make_history_record clk prompt_data config_data) (\<lambda>history_record.
                bind_r (config_subset config_data) (\<lambda>config.
                bind_r (content_for_hash config prompt_data) (\<lambda>content.
                bind_r (digest content) (\<lambda>content_hash.
                bind_r (find_duplicate digest content_hash
                          (filter (\<lambda>f. glob_matches (history_path app_path) (fst f)) (hf_files fs)))
                  (\<lambda>duplicate_file. Inr (history_record, duplicate_file))))))"
    have body: "save_history_body digest clk prompt_data config_data app_path filename fs0 =
        (case ?chain of
             Inl e \<Rightarrow> (Inl e, fs)
           | Inr (history_record, None) \<Rightarrow> write_new clk history_record app_path filename fs
           | Inr (history_record, Some duplicate_file) \<Rightarrow>
               (case update_duplicate history_record prompt_data duplicate_file fs of
                  (None, fs') \<Rightarrow> (Inr duplicate_file, fs')
                | (Some e, fs') \<Rightarrow>
                    if is_Exception e then write_new clk history_record app_path filename fs'
                    else (Inl e, fs')))"
      using Pair None by (simp add: save_history_body_def)
    have ch: "catchable ?chain"
      by (intro catchable_bind_r catchable_make_history_record catchable_config_subset
            catchable_content_for_hash dg catchable_find_duplicate catchable_Inr)
    show ?thesis
    proof (cases ?chain)
      case (Inl e)
      with ch body show ?thesis by simp
    next
      case (Inr pair)
      obtain history_record dup where pair: "pair = (history_record, dup)" by (cases pair)
      show ?thesis
      proof (cases dup)
        case None
        with Inr pair body
        have "save_history_body digest clk prompt_data config_data app_path filename fs0
              = write_new clk history_record app_path filename fs" by simp
        with write_new_result [of clk history_record app_path filename fs] show ?thesis by auto
      next
        case (Some duplicate_file)
        obtain r' fs' where u: "update_duplicate history_record prompt_data duplicate_file fs = (r', fs')"
          by (cases "update_duplicate history_record prompt_data duplicate_file fs")
        show ?thesis
        proof (cases r')
          case None
          with u Some Inr pair body
          have b: "save_history_body digest clk prompt_data config_data app_path filename fs0
              = (Inr duplicate_file, fs')" by simp
          from update_duplicate_stored [of history_record prompt_data duplicate_file fs] u None
          have "\<exists>v. map_of (hf_files fs') duplicate_file = Some (Doc v)" by simp
          with b show ?thesis by simp
        next
          case (Some e)
          with update_duplicate_error [of history_record prompt_data duplicate_file fs e] u
          have "is_Exception e" by simp
          with u Some \<open>dup = Some duplicate_file\<close> Inr pair body
          have "save_history_body digest clk prompt_data config_data app_path filename fs0
              = write_new clk history_record app_path filename fs'" by simp
          with write_new_result [of clk history_record app_path filename fs'] show ?thesis by auto
        qed
      qed
    qed
  qed
qed

lemma set_dict_set: "set (dict_set k v kvs) \<subseteq> insert (k, v) (set kvs)"
  by (induction kvs) (auto split: if_splits)

lemma has_surrogate_dict_set:
  assumes "has_surrogate (JObj (dict_set k v kvs))"
  shows "(\<exists>c\<in>set k. 55296 \<le> c \<and> c \<le> 57343) \<or> has_surrogate v \<or> has_surrogate (JObj kvs)"
proof -
  from assms obtain kv where kv: "kv \<in> set (dict_set k v kvs)"
    "(\<exists>c\<in>set (fst kv). 55296 \<le> c \<and> c \<le> 57343) \<or> has_surrogate (snd kv)"
    by auto
  from kv(1) set_dict_set [of k v kvs] have "kv = (k, v) \<or> kv \<in> set kvs" by auto
  with kv(2) show ?thesis by auto
qed

lemma map_fst_put_file:
  "p \<in> fst ` set files \<Longrightarrow> map fst (put_file p c files) = map fst files"
  by (induction files) force+

lemma map_fst_put_file_new:
  "p \<notin> fst ` set files \<Longrightarrow> map fst (put_file p c files) = map fst files @ [p]"
  by (induction files) auto

lemma filter_put_file_new:
  assumes "\<forall>f\<in>set files. \<not> P (fst f)" and "P p"
  shows "filter (\<lambda>f. P (fst f)) (put_file p c files) = [(p, c)]"
  using assms by (induction files) auto

lemma strip_prefix_snoc: "strip_prefix (a @ [x]) (a @ x # r) = Some r"
  by (induction a) simp_all

lemma history_path_shape: "\<exists>pre. history_path app_path = pre @ asc ''history''"
  by (auto simp: history_path_def os_path_join_def asc_def)

lemma default_path_matches:
  assumes "47 \<notin> set (c_stamp clk)"
  shows "glob_matches (history_path app_path)
           (os_path_join (history_path app_path) (choose_filename clk None))"
proof -
  obtain pre where h: "history_path app_path = pre @ asc ''history''"
    using history_path_shape by blast
  let ?name = "asc ''sora_history_'' @ c_stamp clk @ asc ''.json''"
  have e: "ends_with (asc ''.json'') ?name" "ends_with (asc ''.json'') (c_stamp clk @ asc ''.json'')"
    by (simp_all add: ends_with_def asc_def)
  then have cf: "choose_filename clk None = ?name" by (simp add: choose_filename_def)
  have j: "os_path_join (history_path app_path) ?name = history_path app_path @ [47] @ ?name"
    unfolding h by (simp add: os_path_join_def asc_def)
  have "47 \<notin> set ?name" using assms by (auto simp: asc_def)
  then show ?thesis
    unfolding cf j glob_matches_def
    using e(2) by (simp add: strip_prefix_snoc strip_prefix_append)
qed


lemma make_history_record_shape:
  assumes "make_history_record clk prompt_data config_data = Inr hr"
  shows "\<exists>t s f config.
           config_subset config_data = Inr config \<and>
           hr = JObj [(asc ''version'', JStr (asc ''3.4'')),
                      (asc ''created_time'', JStr (c_created_time clk)),
                      (asc ''total_prompts'', JInt t),
                      (asc ''success_count'', JInt s),
                      (asc ''failed_count'', JInt f),
                      (asc ''config'', config),
                      (asc ''prompts'', prompt_data)]"
  using assms by (auto simp: make_history_record_def bind_r_def split: sum.splits)

lemma refresh_record_same_config:
  assumes "hr1 = JObj [(asc ''version'', JStr (asc ''3.4'')),
                      (asc ''created_time'', JStr c1),
                      (asc ''total_prompts'', JInt t1),
                      (asc ''success_count'', JInt s1),
                      (asc ''failed_count'', JInt f1),
                      (asc ''config'', config),
                      (asc ''prompts'', pd1)]"
    and "hr2 = JObj [(asc ''version'', JStr (asc ''3.4'')),
                      (asc ''created_time'', JStr c2),
                      (asc ''total_prompts'', JInt t2),
                      (asc ''success_count'', JInt s2),
                      (asc ''failed_count'', JInt f2),
                      (asc ''config'', config),
                      (asc ''prompts'', pd2)]"
  shows "refresh_record hr2 pd2 hr1 = Inr hr2"
  unfolding assms by (simp add: refresh_record_def asc_def)

text \<open>
  Saved twice under the default name, with the same configuration and the same prompt texts
  (status and results may differ), into a directory that holds no default-named record and
  whose files can be written: the second save finds the record of the first, rewrites it in
  place with the new time, counts and prompts, and returns its path; the directory has gained
  one file.
\<close>

lemma save_history_default_twice:
  assumes dir: "hf_dir_exists fs0"
    and fresh: "\<forall>f\<in>set (hf_files fs0). \<not> glob_matches (history_path app_path) (fst f)"
    and writable: "\<And>p. \<not> hf_write_fails fs0 p"
    and stamp: "47 \<notin> set (c_stamp clk1)"
    and rec1: "make_history_record clk1 pd1 config_data = Inr hr1"
    and rec2: "make_history_record clk2 pd2 config_data = Inr hr2"
    and texts: "prompt_texts pd2 = prompt_texts pd1"
    and cs: "config_subset config_data = Inr config"
    and ch: "content_for_hash config pd1 = Inr content"
    and dg: "digest content = Inr h"
    and clean: "\<not> has_surrogate hr1" "\<not> has_surrogate hr2"
  shows "\<exists>p fs1 fs2.
           save_history_record digest clk1 pd1 config_data app_path None fs0 = (Inr (Some p), fs1)
         \<and> save_history_record digest clk2 pd2 config_data app_path None fs1 = (Inr (Some p), fs2)
         \<and> map fst (hf_files fs1) = map fst (hf_files fs0) @ [p]
         \<and> map fst (hf_files fs2) = map fst (hf_files fs1)
         \<and> map_of (hf_files fs2) p = Some (Doc hr2)"
proof -
  let ?hp = "history_path app_path"
  let ?glob = "\<lambda>f. glob_matches ?hp (fst f)"
  define p where "p = os_path_join ?hp (choose_filename clk1 None)"
  define fs1 where "fs1 = fs0\<lparr>hf_files := put_file p (Doc hr1) (hf_files fs0)\<rparr>"
  define fs2 where "fs2 = fs1\<lparr>hf_files := put_file p (Doc hr2) (hf_files fs1)\<rparr>"
  have pm: "glob_matches ?hp p" unfolding p_def using stamp by (rule default_path_matches)
  with fresh have pnew: "p \<notin> fst ` set (hf_files fs0)" by auto
  have ch2: "content_for_hash config pd2 = Inr content"
    using ch texts by (simp add: content_for_hash_def)
  from make_history_record_shape [OF rec1] cs obtain t1 s1 f1 where
    hr1: "hr1 = JObj [(asc ''version'', JStr (asc ''3.4'')),
                      (asc ''created_time'', JStr (c_created_time clk1)),
                      (asc ''total_prompts'', JInt t1),
                      (asc ''success_count'', JInt s1),
                      (asc ''failed_count'', JInt f1),
                      (asc ''config'', config),
                      (asc ''prompts'', pd1)]" by auto
  from make_history_record_shape [OF rec2] cs obtain t2 s2 f2 where
    hr2: "hr2 = JObj [(asc ''version'', JStr (asc ''3.4'')),
                      (asc ''created_time'', JStr (c_created_time clk2)),
                      (asc ''total_prompts'', JInt t2),
                      (asc ''success_count'', JInt s2),
                      (asc ''failed_count'', JInt f2),
                      (asc ''config'', config),
                      (asc ''prompts'', pd2)]" by auto
  \<comment> \<open>the first save\<close>
  have e0: "ensure_history_directory fs0 = (None, fs0)"
    using dir by (simp add: ensure_history_directory_def)
  have g0: "filter ?glob (hf_files fs0) = []" using fresh by (simp add: filter_empty_conv)
  have w1: "write_json p hr1 fs0 = (None, fs1)"
    using dir writable clean(1) by (simp add: write_json_def fs1_def)
  have first: "save_history_record digest clk1 pd1 config_data app_path None fs0 = (Inr (Some p), fs1)"
    by (simp add: save_history_record_def save_history_body_def e0 rec1 cs ch dg g0 bind_r_def
          write_new_def w1 p_def [symmetric])
  \<comment> \<open>the second save\<close>
  have e1: "ensure_history_directory fs1 = (None, fs1)"
    using dir by (simp add: ensure_history_directory_def fs1_def)
  have g1: "filter ?glob (hf_files fs1) = [(p, Doc hr1)]"
    unfolding fs1_def using fresh pm
    by (simp add: filter_put_file_new [where P = "glob_matches ?hp"])
  have ex: "examine_existing digest h (Doc hr1) = Match"
    unfolding hr1
    by (simp add: examine_existing_def bind_r_def ch dg asc_def)
  have fd: "find_duplicate digest h [(p, Doc hr1)] = Inr (Some p)"
    using ex by simp
  have m1: "map_of (hf_files fs1) p = Some (Doc hr1)" by (simp add: fs1_def map_of_put_file)
  have rr: "refresh_record hr2 pd2 hr1 = Inr hr2"
    using hr1 hr2 by (rule refresh_record_same_config)
  have w2: "write_json p hr2 fs1 = (None, fs2)"
    using dir writable clean(2) by (simp add: write_json_def fs1_def fs2_def)
  have ud: "update_duplicate hr2 pd2 p fs1 = (None, fs2)"
    by (simp add: update_duplicate_def m1 rr w2)
  have second: "save_history_record digest clk2 pd2 config_data app_path None fs1 = (Inr (Some p), fs2)"
    by (simp add: save_history_record_def save_history_body_def e1 rec2 cs ch2 dg g1 ex bind_r_def ud)
  have n1: "map fst (hf_files fs1) = map fst (hf_files fs0) @ [p]"
    using pnew by (simp add: fs1_def map_fst_put_file_new)
  have n2: "map fst (hf_files fs2) = map fst (hf_files fs1)"
  proof -
    have "p \<in> set (map fst (hf_files fs1))" unfolding n1 by simp
    hence "p \<in> fst ` set (hf_files fs1)" by simp
    hence "map fst (put_file p (Doc hr2) (hf_files fs1)) = map fst (hf_files fs1)"
      by (rule map_fst_put_file)
    thus ?thesis by (simp add: fs2_def)
  qed
  have m2: "map_of (hf_files fs2) p = Some (Doc hr2)" by (simp add: fs2_def map_of_put_file)
  from first second n1 n2 m2 show ?thesis by blast
qed

text \<open>
  C10. For every prompt data, config data, application path, optional file name, clock and
  store, \<open>save_history_record\<close> returns and does not raise: its result is \<open>None\<close> exactly
  when the body raised, in particular when the directory cannot be created, and otherwise
  the path of a file that then holds a JSON document.
\<close>

theorem save_history_record_never_raises:
  assumes "\<And>c. catchable (digest c)"
  shows "\<exists>r. fst (save_history_record digest clk prompt_data config_data app_path filename fs0) = Inr r
           \<and> (r = None \<longleftrightarrow>
                (\<exists>e. fst (save_history_body digest clk prompt_data config_data app_path filename fs0)
                        = Inl e))
           \<and> (\<forall>p. r = Some p \<longrightarrow>
                (\<exists>v. map_of (hf_files (snd (save_history_record digest clk prompt_data config_data
                                              app_path filename fs0))) p = Some (Doc v)))
           \<and> (\<not> hf_dir_exists fs0 \<and> hf_mkdir_fails fs0 \<longrightarrow> r = None)"
proof -
  let ?b = "save_history_body digest clk prompt_data config_data app_path filename fs0"
  obtain res fs where b: "?b = (res, fs)" by (cases ?b)
  from save_history_body_result [where digest = digest and clk = clk and prompt_data = prompt_data
      and config_data = config_data and app_path = app_path and filename = filename and ?fs0.0 = fs0,
      OF assms] b
  have c: "catchable res"
    and st: "\<And>p. res = Inr p \<Longrightarrow> \<exists>v. map_of (hf_files fs) p = Some (Doc v)"
    by simp_all
  have mk: "\<not> hf_dir_exists fs0 \<and> hf_mkdir_fails fs0 \<Longrightarrow> \<exists>e. res = Inl e"
    using b by (auto simp: save_history_body_def ensure_history_directory_def)
  show ?thesis
  proof (cases res)
    case (Inl e)
    with c b show ?thesis by (simp add: save_history_record_def)
  next
    case (Inr p)
    with b st mk show ?thesis by (auto simp: save_history_record_def)
  qed
qed

lemmas history_eval =
  save_history_record_def save_history_body_def ensure_history_directory_def
  make_history_record_def count_status_def prompt_texts_def config_subset_def content_for_hash_def
  bind_r_def glob_matches_def history_path_def os_path_join_def ends_with_def
  examine_existing_def write_new_def write_json_def choose_filename_def update_duplicate_def
  refresh_record_def is_Exception_def plain_digest_def empty_store_def one_cat_def
  st_success_def st_failed_def dumps_str_def escape_char_def dumps_int_def asc_def Let_def

lemma named_first_eval:
  "fst named_first = Inr (Some (asc ''app/history/auto_save_20250101_100000.json''))"
  "map fst (hf_files (snd named_first)) = [asc ''app/history/auto_save_20250101_100000.json'']"
  by (simp_all add: named_first_def history_eval)

text \<open>
  C6 at a concrete batch. Saved twice under the names of the automatic save
  (\<open>auto_save_\<close> and a time stamp), the same configuration and prompts are stored in two
  files: the scan reads only files named \<open>sora_history_*.json\<close> and never sees the first
  record. Saved twice under the default name, they are stored once, and the second save
  returns the path of the first.
\<close>

theorem save_history_named_twice:
  "fst named_first = Inr (Some (asc ''app/history/auto_save_20250101_100000.json''))
   \<and> fst named_second = Inr (Some (asc ''app/history/auto_save_20250101_100500.json''))
   \<and> map fst (hf_files (snd named_second))
       = [asc ''app/history/auto_save_20250101_100000.json'',
          asc ''app/history/auto_save_20250101_100500.json'']
   \<and> fst default_first = Inr (Some (asc ''app/history/sora_history_20250101_100000.json''))
   \<and> fst default_second = Inr (Some (asc ''app/history/sora_history_20250101_100000.json''))
   \<and> map fst (hf_files (snd default_second)) = [asc ''app/history/sora_history_20250101_100000.json'']"
  by (simp add: named_first_def named_second_def default_first_def default_second_def history_eval)

theorem save_history_record_never_raises_witness:
  "(\<exists>r. fst (save_history_record plain_digest \<lparr>c_created_time = asc ''t'', c_stamp = asc ''s''\<rparr>
             one_cat (JObj []) (asc ''app'') None
             (empty_store\<lparr>hf_dir_exists := False, hf_mkdir_fails := True\<rparr>)) = Inr r)
   \<and> fst (save_history_record plain_digest \<lparr>c_created_time = asc ''t'', c_stamp = asc ''s''\<rparr>
             one_cat (JObj []) (asc ''app'') None
             (empty_store\<lparr>hf_dir_exists := False, hf_mkdir_fails := True\<rparr>)) = Inr None
   \<and> fst (save_history_record plain_digest \<lparr>c_created_time = asc ''t'', c_stamp = asc ''s''\<rparr>
             (JInt 5) (JObj []) (asc ''app'') None empty_store) = Inr None
   \<and> fst (save_history_record plain_digest \<lparr>c_created_time = asc ''t'', c_stamp = asc ''s''\<rparr>
             one_cat JNull (asc ''app'') None empty_store) = Inr None"
proof -
  have d: "\<And>c. catchable (plain_digest c)"
    by (simp add: plain_digest_def is_Exception_def)
  from save_history_record_never_raises [where digest = plain_digest, OF d]
  have "\<exists>r. fst (save_history_record plain_digest \<lparr>c_created_time = asc ''t'', c_stamp = asc ''s''\<rparr>
             one_cat (JObj []) (asc ''app'') None
             (empty_store\<lparr>hf_dir_exists := False, hf_mkdir_fails := True\<rparr>)) = Inr r"
    by blast
  moreover have "fst (save_history_record plain_digest \<lparr>c_created_time = asc ''t'', c_stamp = asc ''s''\<rparr>
             one_cat (JObj []) (asc ''app'') None
             (empty_store\<lparr>hf_dir_exists := False, hf_mkdir_fails := True\<rparr>)) = Inr None"
    by (simp add: history_eval)
  moreover have "fst (save_history_record plain_digest \<lparr>c_created_time = asc ''t'', c_stamp = asc ''s''\<rparr>
             (JInt 5) (JObj []) (asc ''app'') None empty_store) = Inr None"
    by (simp add: history_eval)
  moreover have "fst (save_history_record plain_digest \<lparr>c_created_time = asc ''t'', c_stamp = asc ''s''\<rparr>
             one_cat JNull (asc ''app'') None empty_store) = Inr None"
    by (simp add: history_eval)
  ultimately show ?thesis by blast
qed

end
